theory Spec2Isabelle
  imports Main "HOL-Library.Sublist" "HOL-Library.AList"
begin

section \<open>Python values\<close>

text \<open>
  The values that can occur in a requirement's \<open>options\<close> (they come from the project
  configuration): \<open>None\<close>, booleans, integers, strings, lists and dictionaries keyed by
  string. This is a value by its content; the store of mutable objects comes later,
  where aliasing matters.
\<close>

datatype pyval =
    PNone
  | PBool bool
  | PInt int
  | PStr string
  | PList "pyval list"
  | PDict "(string \<times> pyval) list"

text \<open>Python's truth value testing, as \<open>if x:\<close> applies it.\<close>

fun truthy :: "pyval \<Rightarrow> bool" where
  "truthy PNone = False"
| "truthy (PBool b) = b"
| "truthy (PInt i) = (i \<noteq> 0)"
| "truthy (PStr s) = (s \<noteq> [])"
| "truthy (PList xs) = (xs \<noteq> [])"
| "truthy (PDict kvs) = (kvs \<noteq> [])"

text \<open>\<open>str.endswith(suffix)\<close>.\<close>

definition endswith :: "string \<Rightarrow> string \<Rightarrow> bool" where
  "endswith s suf \<longleftrightarrow> length suf \<le> length s \<and> drop (length s - length suf) s = suf"

text \<open>What \<open>str.format\<close> inserts for a value that is a string or \<open>None\<close>.\<close>

fun format_value :: "string option \<Rightarrow> string" where
  "format_value None = ''None''"
| "format_value (Some s) = s"

text \<open>
  \<open>dict.get(key, None)\<close>: the value or \<open>None\<close>, and the dictionary, which the call
  leaves as it was.
\<close>

definition dict_get :: "('k \<rightharpoonup> 'v) \<Rightarrow> 'k \<Rightarrow> 'v option \<times> ('k \<rightharpoonup> 'v)" where
  "dict_get d k = (d k, d)"

section \<open>Requirements and their status (project/plugins/requirement.py)\<close>

text \<open>
  The plugin registry is not part of the sources at hand; a requirement holds it only to
  call \<open>find_providers_by_env_var(self, self.env_var)\<close>. It is therefore a parameter: the
  lookup function, which sees the requirement through its options and its variable, and
  is given the variable's name. The type \<open>'p\<close> is the type of providers.
\<close>

type_synonym 'p PluginRegistry = "(string \<rightharpoonup> pyval) \<Rightarrow> string \<Rightarrow> string \<Rightarrow> 'p list"

record 'p EnvVarRequirement =
  registry :: "'p PluginRegistry"
  options :: "string \<rightharpoonup> pyval"
  env_var :: string

record 'p RequirementStatus =
  requirement :: "'p EnvVarRequirement"
  has_been_provided :: bool
  status_description :: string
  possible_providers :: "'p list"

text \<open>\<open>RequirementStatus.__bool__\<close>\<close>

definition status_bool :: "'p RequirementStatus \<Rightarrow> bool" where
  "status_bool st = has_been_provided st"

definition title :: "'p EnvVarRequirement \<Rightarrow> string" where
  "title R = env_var R"

text \<open>Suffixes that change the default for the "encrypted" option.\<close>

definition secret_suffixes :: "string list" where
  "secret_suffixes = [''_PASSWORD'', ''_ENCRYPTED'', ''_SECRET_KEY'', ''_SECRET'']"

text \<open>
  The property \<open>encrypted\<close> returns the option's value itself when the option is there
  (any Python value, read by its truth value where it is tested), else the boolean
  \<open>any(...)\<close>.
\<close>

definition encrypted :: "'p EnvVarRequirement \<Rightarrow> pyval" where
  "encrypted R =
     (case options R ''encrypted'' of
        Some v \<Rightarrow> v
      | None \<Rightarrow> PBool (list_ex (endswith (env_var R)) secret_suffixes))"

text \<open>
  The methods that take \<open>environ\<close> return it next to their result, so that what they
  do to it is part of the model.
\<close>

definition get_value_of_env_var ::
  "'p EnvVarRequirement \<Rightarrow> (string \<rightharpoonup> string) \<Rightarrow> string option \<times> (string \<rightharpoonup> string)" where
  "get_value_of_env_var R environ =
     (let (value, environ1) = dict_get environ (env_var R);
          value1 = (if value = Some [] then None else value)
      in (value1, environ1))"

definition unset_message :: "'p EnvVarRequirement \<Rightarrow> string" where
  "unset_message R = ''Environment variable '' @ env_var R @ '' is not set.''"

definition set_message ::
  "'p EnvVarRequirement \<Rightarrow> (string \<rightharpoonup> string) \<Rightarrow> string \<times> (string \<rightharpoonup> string)" where
  "set_message R environ =
     (if truthy (encrypted R)
      then (''Environment variable '' @ env_var R @ '' is set.'', environ)
      else (let (value, environ1) = get_value_of_env_var R environ
            in (''Environment variable '' @ env_var R @ '' set to '' @ [CHR 0x27]
                  @ format_value value @ [CHR 0x27], environ1)))"

definition check_status ::
  "'p EnvVarRequirement \<Rightarrow> (string \<rightharpoonup> string)
     \<Rightarrow> 'p RequirementStatus \<times> (string \<rightharpoonup> string)" where
  "check_status R environ =
     (let (value, environ1) = get_value_of_env_var R environ;
          providers = registry R (options R) (env_var R) (env_var R)
      in if value = None
         then (\<lparr> requirement = R, has_been_provided = False,
                  status_description = unset_message R,
                  possible_providers = providers \<rparr>, environ1)
         else (let (msg, environ2) = set_message R environ1
               in (\<lparr> requirement = R, has_been_provided = True,
                      status_description = msg,
                      possible_providers = providers \<rparr>, environ2)))"

text \<open>\<open>RequirementStatus.recheck\<close>\<close>

definition recheck ::
  "'p RequirementStatus \<Rightarrow> (string \<rightharpoonup> string)
     \<Rightarrow> 'p RequirementStatus \<times> (string \<rightharpoonup> string)" where
  "recheck st environ = check_status (requirement st) environ"

text \<open>A registry with no provider at all, for concrete requirements.\<close>

definition no_providers :: "'p PluginRegistry" where
  "no_providers opts var name = []"

section \<open>The store: options as mutable objects (\<open>Requirement.__init__\<close>)\<close>

text \<open>
  \<open>Requirement.__init__\<close> stores \<open>deepcopy(options)\<close>. What that buys can only be said
  where objects have an identity: a store of lists and dictionaries, addressed by
  position, where allocation appends an object. A variable or a slot of a container
  holds an atom (\<open>None\<close>, a boolean, an integer, a string: immutable, copied as
  themselves) or a reference to an object of the store.
\<close>

type_synonym addr = nat

datatype hval = HNone | HBool bool | HInt int | HStr string | HRef addr

datatype pyobj = OList "hval list" | ODict "(string \<times> hval) list"

type_synonym heap = "pyobj list"

text \<open>The \<open>memo\<close> dictionary of \<open>copy.deepcopy\<close>: from an object to its copy.\<close>

type_synonym memo = "addr \<rightharpoonup> addr"

text \<open>
  \<open>y.append(b)\<close> and \<open>y[key] = b\<close> on the object at address \<open>y\<close>; \<open>None\<close> where Python
  would raise (no such object, or an object of the other kind).
\<close>

definition list_append :: "heap \<Rightarrow> addr \<Rightarrow> hval \<Rightarrow> heap option" where
  "list_append h y b =
     (if y < length h
      then (case h ! y of OList ys \<Rightarrow> Some (h[y := OList (ys @ [b])]) | ODict kvs \<Rightarrow> None)
      else None)"

definition dict_setitem :: "heap \<Rightarrow> addr \<Rightarrow> string \<Rightarrow> hval \<Rightarrow> heap option" where
  "dict_setitem h y k b =
     (if y < length h
      then (case h ! y of ODict kvs \<Rightarrow> Some (h[y := ODict (AList.update k b kvs)]) | OList ys \<Rightarrow> None)
      else None)"

text \<open>
  \<open>copy.deepcopy\<close> of the standard library, for the objects above: \<open>_deepcopy_list\<close> and
  \<open>_deepcopy_dict\<close> fill the new object \<open>y\<close>, element by element, with the copies that the
  recursive call \<open>dc\<close> returns; \<open>deepcopy_obj\<close> is the dispatch on the object's type, which
  creates \<open>y\<close> empty, enters it in the memo before the elements are copied (so that a
  cycle ends there) and again after. The recursion of \<open>deepcopy\<close> is bounded by a depth
  \<open>n\<close>: \<open>None\<close> also stands for a recursion deeper than that.
\<close>

fun deepcopy_list ::
  "(heap \<Rightarrow> memo \<Rightarrow> hval \<Rightarrow> (heap \<times> memo \<times> hval) option)
     \<Rightarrow> heap \<Rightarrow> memo \<Rightarrow> addr \<Rightarrow> hval list \<Rightarrow> (heap \<times> memo) option" where
  "deepcopy_list dc h memo y [] = Some (h, memo)"
| "deepcopy_list dc h memo y (a # as) =
     (case dc h memo a of
        None \<Rightarrow> None
      | Some (h1, memo1, b) \<Rightarrow>
          (case list_append h1 y b of
             None \<Rightarrow> None
           | Some h2 \<Rightarrow> deepcopy_list dc h2 memo1 y as))"

fun deepcopy_dict ::
  "(heap \<Rightarrow> memo \<Rightarrow> hval \<Rightarrow> (heap \<times> memo \<times> hval) option)
     \<Rightarrow> heap \<Rightarrow> memo \<Rightarrow> addr \<Rightarrow> (string \<times> hval) list \<Rightarrow> (heap \<times> memo) option" where
  "deepcopy_dict dc h memo y [] = Some (h, memo)"
| "deepcopy_dict dc h memo y ((key, v) # items) =
     (case dc h memo v of
        None \<Rightarrow> None
      | Some (h1, memo1, b) \<Rightarrow>
          (case dict_setitem h1 y key b of
             None \<Rightarrow> None
           | Some h2 \<Rightarrow> deepcopy_dict dc h2 memo1 y items))"

fun deepcopy_obj ::
  "(heap \<Rightarrow> memo \<Rightarrow> hval \<Rightarrow> (heap \<times> memo \<times> hval) option)
     \<Rightarrow> heap \<Rightarrow> memo \<Rightarrow> addr \<Rightarrow> (heap \<times> memo \<times> hval) option" where
  "deepcopy_obj dc h memo a =
     (if a < length h
      then (let y = length h in
            case (case h ! a of
                    OList xs \<Rightarrow> deepcopy_list dc (h @ [OList []]) (memo(a \<mapsto> y)) y xs
                  | ODict kvs \<Rightarrow> deepcopy_dict dc (h @ [ODict []]) (memo(a \<mapsto> y)) y kvs) of
              None \<Rightarrow> None
            | Some (h1, memo1) \<Rightarrow> Some (h1, memo1(a \<mapsto> y), HRef y))
      else None)"

primrec deepcopy :: "nat \<Rightarrow> heap \<Rightarrow> memo \<Rightarrow> hval \<Rightarrow> (heap \<times> memo \<times> hval) option" where
  "deepcopy 0 h memo x =
     (case x of
        HRef a \<Rightarrow> (case memo a of Some y \<Rightarrow> Some (h, memo, HRef y) | None \<Rightarrow> None)
      | _ \<Rightarrow> Some (h, memo, x))"
| "deepcopy (Suc n) h memo x =
     (case x of
        HRef a \<Rightarrow>
          (case memo a of
             Some y \<Rightarrow> Some (h, memo, HRef y)
           | None \<Rightarrow> deepcopy_obj (deepcopy n) h memo a)
      | _ \<Rightarrow> Some (h, memo, x))"

text \<open>
  \<open>Requirement.__init__\<close>: the new store and what \<open>self.options\<close> holds. Options \<open>None\<close>
  give a new empty dictionary, any other options their deep copy.
\<close>

definition Requirement_init :: "nat \<Rightarrow> heap \<Rightarrow> hval \<Rightarrow> (heap \<times> hval) option" where
  "Requirement_init fuel h opts =
     (if opts = HNone then Some (h @ [ODict []], HRef (length h))
      else (case deepcopy fuel h Map.empty opts of
              None \<Rightarrow> None
            | Some (h1, memo1, y) \<Rightarrow> Some (h1, y)))"

text \<open>
  The content of a value of the store, down to depth \<open>n\<close>, as a Python value: what a
  reader of the object sees. \<open>None\<close> when the content is deeper than \<open>n\<close>.
\<close>

primrec load :: "nat \<Rightarrow> heap \<Rightarrow> hval \<Rightarrow> pyval option" where
  "load 0 h v =
     (case v of
        HNone \<Rightarrow> Some PNone | HBool b \<Rightarrow> Some (PBool b) | HInt i \<Rightarrow> Some (PInt i)
      | HStr s \<Rightarrow> Some (PStr s) | HRef a \<Rightarrow> None)"
| "load (Suc n) h v =
     (case v of
        HNone \<Rightarrow> Some PNone | HBool b \<Rightarrow> Some (PBool b) | HInt i \<Rightarrow> Some (PInt i)
      | HStr s \<Rightarrow> Some (PStr s)
      | HRef a \<Rightarrow>
          (if a < length h
           then (case h ! a of
                   OList xs \<Rightarrow> map_option PList (those (map (load n h) xs))
                 | ODict kvs \<Rightarrow>
                     map_option PDict
                       (those (map (\<lambda>kv. map_option (Pair (fst kv)) (load n h (snd kv))) kvs)))
           else None))"

text \<open>
  A well-formed store: every reference in an object is the address of an object, and a
  dictionary holds each key once.
\<close>

fun refs_of :: "pyobj \<Rightarrow> hval list" where
  "refs_of (OList xs) = xs"
| "refs_of (ODict kvs) = map snd kvs"

definition val_in :: "nat \<Rightarrow> nat \<Rightarrow> hval \<Rightarrow> bool" where
  "val_in lo hi v = (case v of HRef a \<Rightarrow> lo \<le> a \<and> a < hi | _ \<Rightarrow> True)"

fun obj_wf :: "nat \<Rightarrow> pyobj \<Rightarrow> bool" where
  "obj_wf n (OList xs) = list_all (val_in 0 n) xs"
| "obj_wf n (ODict kvs) = (distinct (map fst kvs) \<and> list_all (val_in 0 n) (map snd kvs))"

definition heap_wf :: "heap \<Rightarrow> bool" where
  "heap_wf h = list_all (obj_wf (length h)) h"

text \<open>
  The invariant of a running \<open>deepcopy\<close> that started in store \<open>h0\<close>: the objects of \<open>h0\<close>
  are untouched, the objects created since refer to created objects only, and so does
  the memo. \<open>dc_ok\<close> is what a call promises when it returns.
\<close>

definition copy_inv :: "heap \<Rightarrow> heap \<Rightarrow> memo \<Rightarrow> bool" where
  "copy_inv h0 h memo \<longleftrightarrow>
     length h0 \<le> length h \<and> take (length h0) h = h0
     \<and> (\<forall>i. length h0 \<le> i \<and> i < length h \<longrightarrow>
            list_all (val_in (length h0) (length h)) (refs_of (h ! i)))
     \<and> (\<forall>a y. memo a = Some y \<longrightarrow> length h0 \<le> y \<and> y < length h)"

definition dc_ok ::
  "heap \<Rightarrow> (heap \<Rightarrow> memo \<Rightarrow> hval \<Rightarrow> (heap \<times> memo \<times> hval) option) \<Rightarrow> bool" where
  "dc_ok h0 dc \<longleftrightarrow>
     (\<forall>h memo x h' memo' x'.
        copy_inv h0 h memo \<longrightarrow> dc h memo x = Some (h', memo', x') \<longrightarrow>
          copy_inv h0 h' memo' \<and> take (length h) h' = h
          \<and> val_in (length h0) (length h') x'
          \<and> (\<forall>a. x = HRef a \<longrightarrow> (\<exists>y. x' = HRef y))
          \<and> (\<forall>a. memo a \<noteq> None \<longrightarrow> memo' a \<noteq> None))"

text \<open>
  The objects of \<open>h0\<close> not yet in the memo: each level of the recursion enters one more,
  so a depth above their number is enough (\<open>dc_total\<close>).
\<close>

definition unmemo :: "heap \<Rightarrow> memo \<Rightarrow> addr set" where
  "unmemo h0 memo = {a. a < length h0 \<and> memo a = None}"

definition dc_total ::
  "heap \<Rightarrow> nat \<Rightarrow> (heap \<Rightarrow> memo \<Rightarrow> hval \<Rightarrow> (heap \<times> memo \<times> hval) option) \<Rightarrow> bool" where
  "dc_total h0 k dc \<longleftrightarrow>
     (\<forall>h memo x. copy_inv h0 h memo \<longrightarrow> val_in 0 (length h0) x \<longrightarrow>
        card (unmemo h0 memo) < k \<longrightarrow> dc h memo x \<noteq> None)"

text \<open>
  The copy is the original with every reference renamed by the memo: \<open>copied\<close> says so for
  one object whose copy is finished, \<open>dc_copy\<close> is what a call promises about the objects
  it enters in the memo.
\<close>

fun ren :: "memo \<Rightarrow> hval \<Rightarrow> hval" where
  "ren m (HRef a) = (case m a of Some y \<Rightarrow> HRef y | None \<Rightarrow> HRef a)"
| "ren m v = v"

fun ren_obj :: "memo \<Rightarrow> pyobj \<Rightarrow> pyobj" where
  "ren_obj m (OList xs) = OList (map (ren m) xs)"
| "ren_obj m (ODict kvs) = ODict (map (\<lambda>kv. (fst kv, ren m (snd kv))) kvs)"

definition memoized :: "memo \<Rightarrow> hval \<Rightarrow> bool" where
  "memoized m v = (case v of HRef b \<Rightarrow> m b \<noteq> None | _ \<Rightarrow> True)"

definition copied :: "heap \<Rightarrow> heap \<Rightarrow> memo \<Rightarrow> addr \<Rightarrow> bool" where
  "copied h0 h m a \<longleftrightarrow>
     a < length h0 \<and> (\<exists>y. m a = Some y \<and> y < length h \<and> h ! y = ren_obj m (h0 ! a))
     \<and> list_all (memoized m) (refs_of (h0 ! a))"

definition extends :: "memo \<Rightarrow> memo \<Rightarrow> bool" where
  "extends m m' \<longleftrightarrow> (\<forall>a y. m a = Some y \<longrightarrow> m' a = Some y)"

definition dc_copy ::
  "heap \<Rightarrow> (heap \<Rightarrow> memo \<Rightarrow> hval \<Rightarrow> (heap \<times> memo \<times> hval) option) \<Rightarrow> bool" where
  "dc_copy h0 dc \<longleftrightarrow>
     (\<forall>h memo x h' memo' x'.
        copy_inv h0 h memo \<longrightarrow> val_in 0 (length h0) x \<longrightarrow>
        dc h memo x = Some (h', memo', x') \<longrightarrow>
          extends memo memo' \<and> x' = ren memo' x \<and> memoized memo' x
          \<and> (\<forall>a z. memo a = None \<longrightarrow> memo' a = Some z \<longrightarrow>
                 copied h0 h' memo' a \<and> length h \<le> z))"

text \<open>
  A later store \<open>h''\<close>, after the caller has changed in any way the objects that existed
  before the constructor ran (store \<open>h\<close>) and created any further ones: the objects the
  constructor created (those of \<open>h'\<close> beyond \<open>h\<close>) are as it left them.
\<close>

definition caller_mutated :: "heap \<Rightarrow> heap \<Rightarrow> heap \<Rightarrow> bool" where
  "caller_mutated h h' h'' \<longleftrightarrow>
     drop (length h) (take (length h') h'') = drop (length h) h'"

text \<open>
  The requirement whose \<open>options\<close> attribute holds \<open>opts\<close>, as it reads in store \<open>h\<close>.
\<close>

definition requirement_at ::
  "nat \<Rightarrow> heap \<Rightarrow> 'p PluginRegistry \<Rightarrow> string \<Rightarrow> hval \<Rightarrow> 'p EnvVarRequirement option" where
  "requirement_at n h reg var opts =
     (case load n h opts of
        Some (PDict kvs) \<Rightarrow> Some \<lparr> registry = reg, options = map_of kvs, env_var = var \<rparr>
      | _ \<Rightarrow> None)"

text \<open>
  An example: the caller's options \<open>{'encrypted': True, 'tags': ['a', 'b']}\<close>, the store
  after the constructor, and the store after the caller has then set \<open>encrypted\<close> to
  \<open>False\<close>, appended to \<open>tags\<close> and added a key that refers to the requirement's copy.
\<close>

definition caller_heap :: heap where
  "caller_heap =
     [ODict [(''encrypted'', HBool True), (''tags'', HRef 1)],
      OList [HStr ''a'', HStr ''b'']]"

definition copied_heap :: heap where
  "copied_heap = caller_heap @
     [ODict [(''encrypted'', HBool True), (''tags'', HRef 3)],
      OList [HStr ''a'', HStr ''b'']]"

definition mutated_heap :: heap where
  "mutated_heap =
     [ODict [(''encrypted'', HBool False), (''tags'', HRef 1), (''more'', HRef 2)],
      OList [HStr ''a'', HStr ''b'', HStr ''c''],
      ODict [(''encrypted'', HBool True), (''tags'', HRef 3)],
      OList [HStr ''a'', HStr ''b'']]"

section \<open>The interactive configuration server\<close>

text \<open>
  Modelled from the spec: \<open>project/internal/ui_server.py\<close>, \<open>project/prepare.py\<close>,
  \<open>project/plugins/registry.py\<close> and the providers are missing (only
  \<open>test_ui_server.py\<close>, which drives them, and \<open>http_utils.py\<close> are at hand). The
  definitions of this section follow section 4.5 of the specification (the form, the
  composite field names, the three checks on a posted name and their log lines, the
  feeding of a value into environ and local state, the completion event, \<open>unlisten\<close>),
  section 4.4 (what the pipeline does when it is resumed) and section 6 (the HTTP
  surface, the local state keyed by path segments); the names are those the test uses.
\<close>

text \<open>\<open>str.split(sep)\<close> for a separator of one character, and \<open>sep.join(pieces)\<close>.\<close>

fun split_on :: "char \<Rightarrow> string \<Rightarrow> string list" where
  "split_on c [] = [[]]"
| "split_on c (x # xs) =
     (if x = c then [] # split_on c xs
      else (case split_on c xs of [] \<Rightarrow> [[x]] | p # ps \<Rightarrow> (x # p) # ps))"

fun join_with :: "string \<Rightarrow> string list \<Rightarrow> string" where
  "join_with sep [] = []"
| "join_with sep [p] = p"
| "join_with sep (p # q # ps) = p @ sep @ join_with sep (q # ps)"

text \<open>
  A list of strings as Python prints it, \<open>['a', 'b']\<close>, for strings that hold no quote,
  backslash or control character.
\<close>

definition repr_pieces :: "string list \<Rightarrow> string" where
  "repr_pieces ps =
     ''['' @ join_with '', '' (map (\<lambda>p. [CHR 0x27] @ p @ [CHR 0x27]) ps) @ '']''"

text \<open>The persisted local state: from a path of segments to the value stored there.\<close>

type_synonym LocalState = "string list \<rightharpoonup> string"

text \<open>
  Modelled from the spec: a provider, by the name that the form's field names carry and
  by what it does with a value submitted for one of its fields (given the variable of
  the requirement, the field and the value) to the pipeline's environ and local state.
  The environment variable provider feeds the value of its field \<open>value\<close> into environ,
  as the value of the variable, and into the local state at \<open>["variables", env_var]\<close>. The
  registry of the test, \<open>PluginRegistry()\<close>, offers that provider for an
  \<open>EnvVarRequirement\<close>.
\<close>

record Provider =
  provider_name :: string
  set_config_value ::
    "string \<Rightarrow> string \<Rightarrow> string \<Rightarrow> (string \<rightharpoonup> string) \<times> LocalState
       \<Rightarrow> (string \<rightharpoonup> string) \<times> LocalState"

definition EnvVarProvider :: Provider where
  "EnvVarProvider =
     \<lparr> provider_name = ''EnvVarProvider'',
       set_config_value = (\<lambda>var field val (env, ls).
          if field = ''value'' then (env(var \<mapsto> val), ls([''variables'', var] \<mapsto> val))
          else (env, ls)) \<rparr>"

definition PluginRegistry :: "Provider PluginRegistry" where
  "PluginRegistry opts var name = [EnvVarProvider]"

text \<open>
  Modelled from the spec: the terminal results of the pipeline, \<open>PrepareSuccess\<close> (logs,
  final environ) and \<open>PrepareFailure\<close> (logs, errors), the context that a stage holds, and
  what running a stage gives: a terminal result, or a next stage that awaits input.
\<close>

datatype PrepareResult =
    PrepareSuccess "string list" "string \<rightharpoonup> string"
  | PrepareFailure "string list" "string list"

datatype StageOutcome = Finished PrepareResult | AwaitingInput


record ConfigurePrepareContext =
  ctx_environ :: "string \<rightharpoonup> string"
  ctx_local_state :: LocalState
  ctx_statuses :: "Provider RequirementStatus list"

text \<open>
  Modelled from the spec (section 4.4, the entry to the state Computing status of an
  interactive run): the status of every requirement is computed again against the
  current environ; if all are provided the result is success with the accumulated logs;
  if a requirement is unmet and has no provider the result is failure, with those
  requirements as errors (here by their status descriptions); else the pipeline awaits
  input. The stage that a session resumes starts with no logs accumulated.
\<close>

definition recompute_statuses :: "ConfigurePrepareContext \<Rightarrow> Provider RequirementStatus list" where
  "recompute_statuses config_context =
     map (\<lambda>st. fst (check_status (requirement st) (ctx_environ config_context)))
       (ctx_statuses config_context)"

definition computing_status :: "string list \<Rightarrow> ConfigurePrepareContext \<Rightarrow> StageOutcome" where
  "computing_status logs config_context =
     (let sts = recompute_statuses config_context;
          stuck = filter (\<lambda>st. \<not> has_been_provided st \<and> possible_providers st = []) sts
      in if list_all has_been_provided sts
         then Finished (PrepareSuccess logs (ctx_environ config_context))
         else if stuck \<noteq> []
         then Finished (PrepareFailure logs (map status_description stuck))
         else AwaitingInput)"

definition prepare_stage :: "ConfigurePrepareContext \<Rightarrow> StageOutcome" where
  "prepare_stage config_context = computing_status [] config_context"

text \<open>
  Modelled from the spec: the server of one session. It holds the stage to resume and
  its context, the requirement ids of the form it last rendered, the events it has
  handed to the caller's event handler, the lines it has logged on standard error, the
  outcome of the resumed stage, and whether its socket is listening.
\<close>

datatype UIServerEvent = UIServerDoneEvent

record UIServer =
  ui_prepare_stage :: "ConfigurePrepareContext \<Rightarrow> StageOutcome"
  ui_context :: ConfigurePrepareContext
  ui_requirements_by_id :: "(string \<times> Provider RequirementStatus) list"
  ui_events :: "UIServerEvent list"
  ui_stderr :: "string list"
  ui_result :: "StageOutcome option"
  ui_listening :: bool

text \<open>An HTTP response: the status code, and the input fields (type, name) of a form.\<close>

record HTTPResponse =
  resp_code :: nat
  resp_inputs :: "(string \<times> string) list"

definition UIServer_init ::
  "(ConfigurePrepareContext \<Rightarrow> StageOutcome) \<Rightarrow> ConfigurePrepareContext \<Rightarrow> UIServer" where
  "UIServer_init stage config_context =
     \<lparr> ui_prepare_stage = stage, ui_context = config_context, ui_requirements_by_id = [],
       ui_events = [], ui_stderr = [], ui_result = None, ui_listening = True \<rparr>"

text \<open>
  GET: one text input per unmet requirement that has a provider to enter it through,
  named \<open>{requirement-id}.{provider-name}.value\<close>. The specification does not say how
  the ids are made: \<open>mk_id\<close>, from the position of the requirement to its id, is a
  parameter.
\<close>

definition form_inputs ::
  "(string \<times> Provider RequirementStatus) list \<Rightarrow> (string \<times> string) list" where
  "form_inputs by_id =
     concat (map (\<lambda>(req_id, st).
        (if has_been_provided st then []
         else (case possible_providers st of
                 [] \<Rightarrow> []
               | p # ps \<Rightarrow> [(''text'', req_id @ ''.'' @ provider_name p @ ''.value'')])))
       by_id)"

definition ui_get :: "(nat \<Rightarrow> string) \<Rightarrow> UIServer \<Rightarrow> HTTPResponse \<times> UIServer" where
  "ui_get mk_id s =
     (let sts = ctx_statuses (ui_context s);
          by_id = zip (map mk_id [0..<length sts]) sts
      in (\<lparr> resp_code = 200, resp_inputs = form_inputs by_id \<rparr>,
          s\<lparr> ui_requirements_by_id := by_id \<rparr>))"

text \<open>
  POST, one submitted field (name, value): the name is split at the dots; fewer than
  three pieces, an unknown requirement id or an unknown provider name are logged and the
  field is ignored; else the provider feeds the value into environ and local state.
\<close>

definition feed_value ::
  "Provider \<Rightarrow> string \<Rightarrow> string \<Rightarrow> string \<Rightarrow> ConfigurePrepareContext
     \<Rightarrow> ConfigurePrepareContext" where
  "feed_value p var field val config_context =
     (let fed = set_config_value p var field val
                  (ctx_environ config_context, ctx_local_state config_context)
      in config_context\<lparr> ctx_environ := fst fed, ctx_local_state := snd fed \<rparr>)"

definition post_field :: "UIServer \<Rightarrow> string \<times> string \<Rightarrow> UIServer" where
  "post_field s nv =
     (let pieces = split_on CHR ''.'' (fst nv) in
      if length pieces < 3
      then s\<lparr> ui_stderr := ui_stderr s @ [''not enough pieces in '' @ repr_pieces pieces] \<rparr>
      else (case map_of (ui_requirements_by_id s) (pieces ! 0) of
              None \<Rightarrow>
                s\<lparr> ui_stderr := ui_stderr s @ [pieces ! 0 @ '' not a known requirement id''] \<rparr>
            | Some st \<Rightarrow>
                (case find (\<lambda>p. provider_name p = pieces ! 1) (possible_providers st) of
                   None \<Rightarrow>
                     s\<lparr> ui_stderr := ui_stderr s @ [''did not find provider '' @ pieces ! 1] \<rparr>
                 | Some p \<Rightarrow>
                     s\<lparr> ui_context :=
                          feed_value p (env_var (requirement st))
                            (join_with ''.'' (drop 2 pieces)) (snd nv) (ui_context s) \<rparr>)))"

text \<open>
  POST: the fields of the body in turn, then the pipeline is resumed (the stage runs on
  the context), one completion event goes to the event handler, and the response is 200
  whatever the fields were.
\<close>

definition ui_post :: "UIServer \<Rightarrow> (string \<times> string) list \<Rightarrow> HTTPResponse \<times> UIServer" where
  "ui_post s body =
     (let s1 = foldl post_field s body;
          s2 = s1\<lparr> ui_result := Some (ui_prepare_stage s1 (ui_context s1)),
                   ui_events := ui_events s1 @ [UIServerDoneEvent] \<rparr>
      in (\<lparr> resp_code = 200, resp_inputs = [] \<rparr>, s2))"

text \<open>
  \<open>unlisten\<close> releases the listening socket. A request reaches the handlers above only
  through that socket: \<open>http_get\<close> and \<open>http_post\<close> (\<open>http_utils.py\<close>) return the response,
  or raise the error of the fetch, which for a server that does not listen is a refused
  connection.
\<close>

definition unlisten :: "UIServer \<Rightarrow> UIServer" where
  "unlisten s = s\<lparr> ui_listening := False \<rparr>"

datatype http_error = ConnectionRefused

definition http_get ::
  "(nat \<Rightarrow> string) \<Rightarrow> UIServer \<Rightarrow> http_error + HTTPResponse \<times> UIServer" where
  "http_get mk_id s = (if ui_listening s then Inr (ui_get mk_id s) else Inl ConnectionRefused)"

definition http_post ::
  "UIServer \<Rightarrow> (string \<times> string) list \<Rightarrow> http_error + HTTPResponse \<times> UIServer" where
  "http_post s body = (if ui_listening s then Inr (ui_post s body) else Inl ConnectionRefused)"

text \<open>An id scheme and the sessions of the tests, for concrete sessions.\<close>

definition tally_id :: "nat \<Rightarrow> string" where
  "tally_id i = ''req'' @ replicate i (CHR ''i'')"

definition foo_status :: "Provider RequirementStatus" where
  "foo_status =
     fst (check_status \<lparr> registry = PluginRegistry, options = Map.empty, env_var = ''FOO'' \<rparr>
       Map.empty)"

definition foo_session :: UIServer where
  "foo_session =
     snd (ui_get tally_id (UIServer_init prepare_stage
       \<lparr> ctx_environ = Map.empty, ctx_local_state = Map.empty,
          ctx_statuses = [foo_status] \<rparr>))"

definition empty_session :: UIServer where
  "empty_session =
     UIServer_init prepare_stage
       \<lparr> ctx_environ = Map.empty, ctx_local_state = Map.empty, ctx_statuses = [] \<rparr>"

section \<open>Loading service declarations\<close>

text \<open>
  Python's \<open>repr\<close> and \<open>str\<close> of a value, as the messages below print them: integers in
  decimal, strings in single quotes (strings that hold no quote, backslash or control
  character), lists and dictionaries with their elements.
\<close>

function str_of_nat :: "nat \<Rightarrow> string" where
  "str_of_nat n =
     (if n < 10 then [char_of (48 + n)]
      else str_of_nat (n div 10) @ [char_of (48 + n mod 10)])"
  by pat_completeness auto
termination
  by (relation "measure id") auto

definition str_of_int :: "int \<Rightarrow> string" where
  "str_of_int i = (if i < 0 then ''-'' @ str_of_nat (nat (- i)) else str_of_nat (nat i))"

fun py_repr :: "pyval \<Rightarrow> string" where
  "py_repr PNone = ''None''"
| "py_repr (PBool b) = (if b then ''True'' else ''False'')"
| "py_repr (PInt i) = str_of_int i"
| "py_repr (PStr s) = [CHR 0x27] @ s @ [CHR 0x27]"
| "py_repr (PList xs) = ''['' @ join_with '', '' (map py_repr xs) @ '']''"
| "py_repr (PDict kvs) =
     ''{'' @ join_with '', ''
        (map (\<lambda>kv. [CHR 0x27] @ fst kv @ [CHR 0x27] @ '': '' @ py_repr (snd kv)) kvs) @ ''}''"

fun py_str :: "pyval \<Rightarrow> string" where
  "py_str (PStr s) = s"
| "py_str v = py_repr v"

text \<open>
  Modelled from the spec: the loading of the \<open>services:\<close> section of a project file
  (\<open>conda_kapsel/project.py\<close> and the service requirement are missing; only
  \<open>test_service_requirement.py\<close> is at hand). The specification says that a bad
  declaration, an unknown service type and a bad type of default value are reported as
  a problem string at validation time and that nothing is raised; the four messages are
  those of the tests. A declaration is a service type string or a dictionary of options
  with a \<open>type\<close>; it is checked step by step and the first check that fails rejects it.
  The service types that the registry knows are a parameter.
\<close>

fun is_scalar :: "pyval \<Rightarrow> bool" where
  "is_scalar (PList xs) = False"
| "is_scalar (PDict kvs) = False"
| "is_scalar v = True"

definition parse_default :: "(string \<times> pyval) list \<Rightarrow> string \<Rightarrow> string option" where
  "parse_default opts varname =
     (case map_of opts ''default'' of
        None \<Rightarrow> None
      | Some v \<Rightarrow>
          (if is_scalar v then None
           else Some (''default value for variable '' @ varname
                  @ '' must be null, a string, or a number, not '' @ py_repr v @ ''.'')))"

record ServiceRequirement =
  service_env_var :: string
  service_options :: "(string \<times> pyval) list"

fun known_service_type :: "string list \<Rightarrow> pyval \<Rightarrow> bool" where
  "known_service_type known (PStr t) = (t \<in> set known)"
| "known_service_type known v = False"

definition find_service_type ::
  "string list \<Rightarrow> string \<Rightarrow> pyval \<Rightarrow> (string \<times> pyval) list
     \<Rightarrow> string list \<times> ServiceRequirement option" where
  "find_service_type known varname service_type opts =
     (if known_service_type known service_type
      then ([], Some \<lparr> service_env_var = varname, service_options = opts \<rparr>)
      else ([''Service '' @ varname @ '' has an unknown type '' @ [CHR 0x27]
               @ py_str service_type @ [CHR 0x27] @ ''.''], None))"

definition load_service ::
  "string list \<Rightarrow> string \<Rightarrow> pyval \<Rightarrow> string list \<times> ServiceRequirement option" where
  "load_service known varname item =
     (case item of
        PStr t \<Rightarrow> find_service_type known varname (PStr t) [(''type'', PStr t)]
      | PDict opts \<Rightarrow>
          (case map_of opts ''type'' of
             None \<Rightarrow>
               ([''Service '' @ varname @ '' doesn'' @ [CHR 0x27] @ ''t contain a ''
                   @ [CHR 0x27] @ ''type'' @ [CHR 0x27] @ '' field.''], None)
           | Some service_type \<Rightarrow>
               (case parse_default opts varname of
                  Some problem \<Rightarrow> ([problem], None)
                | None \<Rightarrow> find_service_type known varname service_type opts))
      | _ \<Rightarrow>
          ([''Service '' @ varname
              @ '' should have a service type string or a dictionary as its value.''], None))"

text \<open>The problems of a whole \<open>services:\<close> section, in the order of its entries.\<close>

definition load_services :: "string list \<Rightarrow> (string \<times> pyval) list \<Rightarrow> string list" where
  "load_services known services =
     concat (map (\<lambda>entry. fst (load_service known (fst entry) (snd entry))) services)"

text \<open>
  A malformed declaration: neither a string nor a dictionary, a string that is no known
  type, a dictionary without \<open>type\<close>, with a default that is a list or a dictionary, or
  with a type that is not known.
\<close>

definition malformed_service :: "string list \<Rightarrow> pyval \<Rightarrow> bool" where
  "malformed_service known item =
     (case item of
        PStr t \<Rightarrow> t \<notin> set known
      | PDict opts \<Rightarrow>
          (case map_of opts ''type'' of
             None \<Rightarrow> True
           | Some service_type \<Rightarrow>
               (case map_of opts ''default'' of
                  Some (PList xs) \<Rightarrow> True
                | Some (PDict kvs) \<Rightarrow> True
                | _ \<Rightarrow> \<not> known_service_type known service_type))
      | _ \<Rightarrow> True)"

section \<open>The command line\<close>

text \<open>
  Modelled from the spec: a command of the command line, here \<open>unarchive\<close>
  (\<open>anaconda_project/internal/cli\<close> is missing; only \<open>test_unarchive.py\<close> is at hand). The
  specification says that the caller prints the collected logs as progress and the
  collected errors as failure text and exits non-zero only on failure; the streams and
  the place of the description are those of the test. The operation reports through
  the frontend while it runs (\<open>frontend.info\<close>, \<open>frontend.error\<close>) and returns a status;
  the frontend prints what it is told, line by line, and the command then prints the
  description: on standard output after a success, on standard error after a failure.
\<close>

datatype frontend_call = Info string | Error string

record SimpleStatus =
  success :: bool
  description :: string
  errors :: "string list"

record Console =
  console_out :: "string list"
  console_err :: "string list"

fun frontend_report :: "Console \<Rightarrow> frontend_call \<Rightarrow> Console" where
  "frontend_report c (Info message) = c\<lparr> console_out := console_out c @ [message] \<rparr>"
| "frontend_report c (Error message) = c\<lparr> console_err := console_err c @ [message] \<rparr>"

definition unarchive_command ::
  "frontend_call list \<times> SimpleStatus \<Rightarrow> Console \<Rightarrow> nat \<times> Console" where
  "unarchive_command operation c =
     (let c1 = foldl frontend_report c (fst operation);
          status = snd operation
      in if success status
         then (0, c1\<lparr> console_out := console_out c1 @ [description status] \<rparr>)
         else (1, c1\<lparr> console_err := console_err c1 @ [description status] \<rparr>))"

text \<open>The messages that an operation logs, and those it reports as errors, in order.\<close>

fun collected_logs :: "frontend_call list \<Rightarrow> string list" where
  "collected_logs [] = []"
| "collected_logs (Info message # calls) = message # collected_logs calls"
| "collected_logs (Error message # calls) = collected_logs calls"

fun collected_errors :: "frontend_call list \<Rightarrow> string list" where
  "collected_errors [] = []"
| "collected_errors (Info message # calls) = collected_errors calls"
| "collected_errors (Error message # calls) = message # collected_errors calls"


section \<open>Properties of the requirement model\<close>

lemma get_value_of_env_var_eq:
  "get_value_of_env_var R environ =
     ((if environ (env_var R) = Some [] then None else environ (env_var R)), environ)"
  by (simp add: get_value_of_env_var_def dict_get_def)

lemma set_message_frame: "snd (set_message R environ) = environ"
  by (simp add: set_message_def get_value_of_env_var_eq)

lemma check_status_unset:
  "environ (env_var R) = None \<or> environ (env_var R) = Some [] \<Longrightarrow>
   fst (check_status R environ) =
     \<lparr> requirement = R, has_been_provided = False,
        status_description = unset_message R,
        possible_providers = registry R (options R) (env_var R) (env_var R) \<rparr>"
  by (auto simp add: check_status_def get_value_of_env_var_eq)

lemma check_status_set:
  "environ (env_var R) = Some v \<Longrightarrow> v \<noteq> [] \<Longrightarrow>
   fst (check_status R environ) =
     \<lparr> requirement = R, has_been_provided = True,
        status_description = fst (set_message R environ),
        possible_providers = registry R (options R) (env_var R) (env_var R) \<rparr>"
  by (simp add: check_status_def get_value_of_env_var_eq split: prod.splits)

text \<open>
  C1. A variable set to the empty string is reported as not provided, and the status has
  the same \<open>has_been_provided\<close> and the same \<open>status_description\<close> as the status for an
  \<open>environ\<close> that does not hold the variable at all.
\<close>

theorem check_status_empty_string_is_unset:
  assumes "environ (env_var R) = Some []"
    and "environ' (env_var R) = None"
  shows "has_been_provided (fst (check_status R environ)) = False
       \<and> has_been_provided (fst (check_status R environ)) =
           has_been_provided (fst (check_status R environ'))
       \<and> status_description (fst (check_status R environ)) =
           status_description (fst (check_status R environ'))"
  using assms by (simp add: check_status_unset)

theorem check_status_empty_string_is_unset_witness:
  "has_been_provided (fst (check_status
      \<lparr> registry = (no_providers :: nat PluginRegistry), options = Map.empty,
         env_var = ''FOO'' \<rparr> [''FOO'' \<mapsto> ''''])) = False
   \<and> status_description (fst (check_status
      \<lparr> registry = (no_providers :: nat PluginRegistry), options = Map.empty,
         env_var = ''FOO'' \<rparr> [''FOO'' \<mapsto> ''''])) =
     status_description (fst (check_status
      \<lparr> registry = (no_providers :: nat PluginRegistry), options = Map.empty,
         env_var = ''FOO'' \<rparr> Map.empty))"
  using check_status_empty_string_is_unset
    [of "[''FOO'' \<mapsto> '''']"
        "\<lparr> registry = (no_providers :: nat PluginRegistry), options = Map.empty,
           env_var = ''FOO'' \<rparr>" Map.empty]
  by simp

text \<open>
  C2. The \<open>encrypted\<close> property is true exactly when the option \<open>encrypted\<close> is present with
  a true value, or the option is absent and the variable's name ends with one of
  \<open>_PASSWORD\<close>, \<open>_ENCRYPTED\<close>, \<open>_SECRET_KEY\<close>, \<open>_SECRET\<close>.
\<close>

theorem encrypted_iff:
  "truthy (encrypted R) \<longleftrightarrow>
     (\<exists>v. options R ''encrypted'' = Some v \<and> truthy v)
   \<or> (options R ''encrypted'' = None
      \<and> (endswith (env_var R) ''_PASSWORD'' \<or> endswith (env_var R) ''_ENCRYPTED''
         \<or> endswith (env_var R) ''_SECRET_KEY'' \<or> endswith (env_var R) ''_SECRET''))"
  by (cases "options R ''encrypted''") (simp_all add: encrypted_def secret_suffixes_def)

theorem encrypted_iff_witness:
  "truthy (encrypted \<lparr> registry = (no_providers :: nat PluginRegistry),
      options = Map.empty, env_var = ''DB_PASSWORD'' \<rparr>)
   \<and> \<not> truthy (encrypted \<lparr> registry = (no_providers :: nat PluginRegistry),
      options = [''encrypted'' \<mapsto> PBool False], env_var = ''DB_PASSWORD'' \<rparr>)"
  using encrypted_iff [of "\<lparr> registry = (no_providers :: nat PluginRegistry),
      options = Map.empty, env_var = ''DB_PASSWORD'' \<rparr>"]
    encrypted_iff [of "\<lparr> registry = (no_providers :: nat PluginRegistry),
      options = [''encrypted'' \<mapsto> PBool False], env_var = ''DB_PASSWORD'' \<rparr>"]
  by (simp add: endswith_def)

text \<open>
  C6. \<open>check_status\<close> leaves \<open>environ\<close> as it was, and a second call on the \<open>environ\<close> that
  the first call leaves gives a status with the same \<open>has_been_provided\<close> and the same
  \<open>status_description\<close>.
\<close>

theorem check_status_frame:
  "snd (check_status R environ) = environ
   \<and> has_been_provided (fst (check_status R (snd (check_status R environ))))
       = has_been_provided (fst (check_status R environ))
   \<and> status_description (fst (check_status R (snd (check_status R environ))))
       = status_description (fst (check_status R environ))"
proof -
  have "snd (check_status R environ) = environ"
    by (simp add: check_status_def get_value_of_env_var_eq set_message_def Let_def
          split: prod.splits)
  then show ?thesis by simp
qed

text \<open>
  C10, as stated: for an encrypted requirement whose variable is set to a non-empty
  value, the status description does not contain the value. This fails when the value
  happens to occur in the fixed message: the variable \<open>DB_PASSWORD\<close> set to \<open>PASSWORD\<close>.
\<close>

theorem set_message_contains_value_counterexample:
  "truthy (encrypted \<lparr> registry = (no_providers :: nat PluginRegistry),
      options = Map.empty, env_var = ''DB_PASSWORD'' \<rparr>)
   \<and> [''DB_PASSWORD'' \<mapsto> ''PASSWORD''] ''DB_PASSWORD'' = Some ''PASSWORD''
   \<and> ''PASSWORD'' \<noteq> []
   \<and> sublist ''PASSWORD'' (status_description (fst (check_status
        \<lparr> registry = (no_providers :: nat PluginRegistry),
           options = Map.empty, env_var = ''DB_PASSWORD'' \<rparr>
        [''DB_PASSWORD'' \<mapsto> ''PASSWORD''])))"
proof -
  have "sublist ''PASSWORD'' (''Environment variable DB_'' @ ''PASSWORD'' @ '' is set.'')"
    by (rule sublist_appendI)
  then show ?thesis
    by (simp add: check_status_def get_value_of_env_var_eq set_message_def encrypted_def
          secret_suffixes_def endswith_def)
qed

text \<open>
  C10, amended: for an encrypted requirement whose variable is set to a non-empty value,
  the requirement is provided and the status description is the fixed message
  \<open>Environment variable {env_var} is set.\<close>, built from the variable's name alone, whatever
  the value is.
\<close>

theorem encrypted_status_description_fixed:
  assumes "truthy (encrypted R)"
    and "environ (env_var R) = Some v"
    and "v \<noteq> []"
  shows "has_been_provided (fst (check_status R environ))
       \<and> status_description (fst (check_status R environ)) =
           ''Environment variable '' @ env_var R @ '' is set.''"
  using assms by (simp add: check_status_set set_message_def)

theorem encrypted_status_description_fixed_witness:
  "status_description (fst (check_status
      \<lparr> registry = (no_providers :: nat PluginRegistry), options = Map.empty,
         env_var = ''DB_PASSWORD'' \<rparr> [''DB_PASSWORD'' \<mapsto> ''hunter2''])) =
     ''Environment variable DB_PASSWORD is set.''"
  using encrypted_status_description_fixed
    [of "\<lparr> registry = (no_providers :: nat PluginRegistry), options = Map.empty,
           env_var = ''DB_PASSWORD'' \<rparr>" "[''DB_PASSWORD'' \<mapsto> ''hunter2'']" "''hunter2''"]
  by (simp add: encrypted_def secret_suffixes_def endswith_def)

section \<open>Properties of the store model\<close>

lemma heap_wf_refs:
  "heap_wf h \<Longrightarrow> a < length h \<Longrightarrow> list_all (val_in 0 (length h)) (refs_of (h ! a))"
  by (cases "h ! a") (auto simp: heap_wf_def list_all_length)

lemma heap_wf_distinct:
  "heap_wf h \<Longrightarrow> a < length h \<Longrightarrow> h ! a = ODict kvs \<Longrightarrow> distinct (map fst kvs)"
  by (auto simp: heap_wf_def list_all_length)

lemma val_in_mono: "val_in lo hi v \<Longrightarrow> hi \<le> hi' \<Longrightarrow> val_in lo hi' v"
  by (auto simp: val_in_def split: hval.splits)

lemma list_all_val_in_mono:
  "list_all (val_in lo hi) xs \<Longrightarrow> hi \<le> hi' \<Longrightarrow> list_all (val_in lo hi') xs"
  by (auto simp: list_all_iff intro: val_in_mono)

lemma copy_inv_store:
  assumes inv: "copy_inv h0 h memo" and y: "length h0 \<le> y" "y < length h"
    and ob: "list_all (val_in (length h0) (length h)) (refs_of ob)"
  shows "copy_inv h0 (h[y := ob]) memo"
proof -
  have "take (length h0) (h[y := ob]) = h0"
    using inv y by (simp add: copy_inv_def)
  moreover have "list_all (val_in (length h0) (length h)) (refs_of ((h[y := ob]) ! i))"
    if "length h0 \<le> i" "i < length h" for i
    using that inv ob by (cases "i = y") (simp_all add: copy_inv_def)
  ultimately show ?thesis
    using inv by (simp add: copy_inv_def)
qed

lemma copy_inv_alloc:
  assumes inv: "copy_inv h0 h memo" and ob: "refs_of ob = []"
  shows "copy_inv h0 (h @ [ob]) (memo(a \<mapsto> length h))"
proof -
  have "list_all (val_in (length h0) (Suc (length h))) (refs_of ((h @ [ob]) ! i))"
    if "length h0 \<le> i" "i < Suc (length h)" for i
  proof (cases "i < length h")
    case True
    then show ?thesis
      using that inv by (auto simp: copy_inv_def nth_append intro: list_all_val_in_mono)
  next
    case False
    then have "i = length h" using that by simp
    then show ?thesis using ob by simp
  qed
  moreover have "length h0 \<le> y \<and> y < Suc (length h)"
    if "(memo(a \<mapsto> length h)) b = Some y" for b y
    using that inv by (cases "b = a") (auto simp: copy_inv_def less_Suc_eq)
  ultimately show ?thesis
    using inv by (simp add: copy_inv_def)
qed

lemma list_append_inv:
  assumes ap: "list_append h y b = Some h2"
    and inv: "copy_inv h0 h memo" and y: "length h0 \<le> y"
    and b: "val_in (length h0) (length h) b"
  shows "copy_inv h0 h2 memo \<and> length h2 = length h
       \<and> (\<forall>i. i \<noteq> y \<longrightarrow> h2 ! i = h ! i)
       \<and> (\<exists>ys. h ! y = OList ys \<and> h2 ! y = OList (ys @ [b]))"
proof -
  from ap obtain ys where yl: "y < length h" and hy: "h ! y = OList ys"
    and h2: "h2 = h[y := OList (ys @ [b])]"
    by (auto simp: list_append_def split: if_splits pyobj.splits)
  have "list_all (val_in (length h0) (length h)) (refs_of (h ! y))"
    using inv y yl by (simp add: copy_inv_def)
  then have "list_all (val_in (length h0) (length h)) (refs_of (OList (ys @ [b])))"
    using b hy by simp
  then have "copy_inv h0 h2 memo"
    unfolding h2 using inv y yl by (intro copy_inv_store)
  then show ?thesis using h2 hy yl by simp
qed

lemma val_in_map_snd_update:
  "list_all P (map snd kvs) \<Longrightarrow> P b \<Longrightarrow> list_all P (map snd (AList.update k b kvs))"
  by (induction kvs) auto

lemma dict_setitem_inv:
  assumes ap: "dict_setitem h y k b = Some h2"
    and inv: "copy_inv h0 h memo" and y: "length h0 \<le> y"
    and b: "val_in (length h0) (length h) b"
  shows "copy_inv h0 h2 memo \<and> length h2 = length h
       \<and> (\<forall>i. i \<noteq> y \<longrightarrow> h2 ! i = h ! i)
       \<and> (\<exists>kvs. h ! y = ODict kvs \<and> h2 ! y = ODict (AList.update k b kvs))"
proof -
  from ap obtain kvs where yl: "y < length h" and hy: "h ! y = ODict kvs"
    and h2: "h2 = h[y := ODict (AList.update k b kvs)]"
    by (auto simp: dict_setitem_def split: if_splits pyobj.splits)
  have "list_all (val_in (length h0) (length h)) (refs_of (h ! y))"
    using inv y yl by (simp add: copy_inv_def)
  then have "list_all (val_in (length h0) (length h)) (refs_of (ODict (AList.update k b kvs)))"
    using b hy by (simp add: val_in_map_snd_update)
  then have "copy_inv h0 h2 memo"
    unfolding h2 using inv y yl by (intro copy_inv_store)
  then show ?thesis using h2 hy yl by simp
qed

lemma take_nth_eq: "take n h' = h \<Longrightarrow> i < length h \<Longrightarrow> h' ! i = h ! i"
  by (metis nth_take length_take min_less_iff_conj)

lemma deepcopy_list_inv:
  assumes ok: "dc_ok h0 dc"
  shows "deepcopy_list dc h memo y xs = Some (h', memo') \<Longrightarrow> copy_inv h0 h memo \<Longrightarrow>
         length h0 \<le> y \<Longrightarrow> y < length h \<Longrightarrow>
         copy_inv h0 h' memo' \<and> length h \<le> length h'
         \<and> (\<forall>i<length h. i \<noteq> y \<longrightarrow> h' ! i = h ! i)
         \<and> (\<forall>a. memo a \<noteq> None \<longrightarrow> memo' a \<noteq> None)"
proof (induction xs arbitrary: h memo)
  case Nil
  then show ?case by simp
next
  case (Cons a as)
  from Cons.prems(1) obtain h1 memo1 b h2 where
    dc: "dc h memo a = Some (h1, memo1, b)" and ap: "list_append h1 y b = Some h2"
    and rest: "deepcopy_list dc h2 memo1 y as = Some (h', memo')"
    by (auto split: option.splits)
  from ok dc Cons.prems(2) have inv1: "copy_inv h0 h1 memo1" and pre1: "take (length h) h1 = h"
    and b: "val_in (length h0) (length h1) b"
    and mono1: "\<forall>a. memo a \<noteq> None \<longrightarrow> memo1 a \<noteq> None"
    unfolding dc_ok_def by blast+
  have len1: "length h \<le> length h1"
    using pre1 by (metis length_take min.cobounded1)
  from list_append_inv[OF ap inv1 Cons.prems(3) b]
  have inv2: "copy_inv h0 h2 memo1" and len2: "length h2 = length h1"
    and same2: "\<forall>i. i \<noteq> y \<longrightarrow> h2 ! i = h1 ! i" by blast+
  have yl2: "y < length h2" using Cons.prems(4) len1 len2 by simp
  from Cons.IH[OF rest inv2 Cons.prems(3) yl2]
  have inv': "copy_inv h0 h' memo'" and len': "length h2 \<le> length h'"
    and same': "\<forall>i<length h2. i \<noteq> y \<longrightarrow> h' ! i = h2 ! i"
    and mono': "\<forall>a. memo1 a \<noteq> None \<longrightarrow> memo' a \<noteq> None" by blast+
  have "h' ! i = h ! i" if "i < length h" "i \<noteq> y" for i
  proof -
    have "h' ! i = h2 ! i" using same' that len1 len2 by simp
    also have "\<dots> = h1 ! i" using same2 that by simp
    also have "\<dots> = h ! i" using pre1 that(1) by (rule take_nth_eq)
    finally show ?thesis .
  qed
  then show ?case using inv' len' len1 len2 mono1 mono' by auto
qed

lemma deepcopy_dict_inv:
  assumes ok: "dc_ok h0 dc"
  shows "deepcopy_dict dc h memo y kvs = Some (h', memo') \<Longrightarrow> copy_inv h0 h memo \<Longrightarrow>
         length h0 \<le> y \<Longrightarrow> y < length h \<Longrightarrow>
         copy_inv h0 h' memo' \<and> length h \<le> length h'
         \<and> (\<forall>i<length h. i \<noteq> y \<longrightarrow> h' ! i = h ! i)
         \<and> (\<forall>a. memo a \<noteq> None \<longrightarrow> memo' a \<noteq> None)"
proof (induction kvs arbitrary: h memo)
  case Nil
  then show ?case by simp
next
  case (Cons kv items)
  obtain key v where kv: "kv = (key, v)" by (cases kv)
  from Cons.prems(1) kv obtain h1 memo1 b h2 where
    dc: "dc h memo v = Some (h1, memo1, b)" and ap: "dict_setitem h1 y key b = Some h2"
    and rest: "deepcopy_dict dc h2 memo1 y items = Some (h', memo')"
    by (auto split: option.splits)
  from ok dc Cons.prems(2) have inv1: "copy_inv h0 h1 memo1" and pre1: "take (length h) h1 = h"
    and b: "val_in (length h0) (length h1) b"
    and mono1: "\<forall>a. memo a \<noteq> None \<longrightarrow> memo1 a \<noteq> None"
    unfolding dc_ok_def by blast+
  have len1: "length h \<le> length h1"
    using pre1 by (metis length_take min.cobounded1)
  from dict_setitem_inv[OF ap inv1 Cons.prems(3) b]
  have inv2: "copy_inv h0 h2 memo1" and len2: "length h2 = length h1"
    and same2: "\<forall>i. i \<noteq> y \<longrightarrow> h2 ! i = h1 ! i" by blast+
  have yl2: "y < length h2" using Cons.prems(4) len1 len2 by simp
  from Cons.IH[OF rest inv2 Cons.prems(3) yl2]
  have inv': "copy_inv h0 h' memo'" and len': "length h2 \<le> length h'"
    and same': "\<forall>i<length h2. i \<noteq> y \<longrightarrow> h' ! i = h2 ! i"
    and mono': "\<forall>a. memo1 a \<noteq> None \<longrightarrow> memo' a \<noteq> None" by blast+
  have "h' ! i = h ! i" if "i < length h" "i \<noteq> y" for i
  proof -
    have "h' ! i = h2 ! i" using same' that len1 len2 by simp
    also have "\<dots> = h1 ! i" using same2 that by simp
    also have "\<dots> = h ! i" using pre1 that(1) by (rule take_nth_eq)
    finally show ?thesis .
  qed
  then show ?case using inv' len' len1 len2 mono1 mono' by auto
qed

lemma take_length_le: "take n h' = h \<Longrightarrow> n = length h \<Longrightarrow> length h \<le> length h'"
  by (metis length_take min.cobounded1)

lemma deepcopy_obj_inv:
  assumes ok: "dc_ok h0 dc" and inv: "copy_inv h0 h memo"
    and dc: "deepcopy_obj dc h memo a = Some (h', memo', x')"
  shows "copy_inv h0 h' memo' \<and> take (length h) h' = h
       \<and> val_in (length h0) (length h') x' \<and> (\<exists>y. x' = HRef y)
       \<and> (\<forall>b. memo b \<noteq> None \<longrightarrow> memo' b \<noteq> None)"
proof -
  let ?y = "length h"
  let ?memo1 = "memo(a \<mapsto> ?y)"
  from dc have al: "a < length h" by (simp split: if_splits)
  have y0: "length h0 \<le> ?y" using inv by (simp add: copy_inv_def)
  obtain ob h1 memo1 where ob: "refs_of ob = []"
    and loop: "copy_inv h0 h1 memo1 \<and> length (h @ [ob]) \<le> length h1
        \<and> (\<forall>i<length (h @ [ob]). i \<noteq> ?y \<longrightarrow> h1 ! i = (h @ [ob]) ! i)
        \<and> (\<forall>b. ?memo1 b \<noteq> None \<longrightarrow> memo1 b \<noteq> None)"
    and res: "h' = h1" "memo' = memo1(a \<mapsto> ?y)" "x' = HRef ?y"
  proof (cases "h ! a")
    case (OList xs)
    with dc al obtain h1 memo1 where
      l: "deepcopy_list dc (h @ [OList []]) ?memo1 ?y xs = Some (h1, memo1)"
      and r: "h' = h1" "memo' = memo1(a \<mapsto> ?y)" "x' = HRef ?y"
      by (auto simp: Let_def split: option.splits)
    have i1: "copy_inv h0 (h @ [OList []]) ?memo1"
      using inv by (intro copy_inv_alloc) simp_all
    from deepcopy_list_inv[OF ok l i1 y0] r show ?thesis
      by (intro that[of "OList []" h1 memo1]) simp_all
  next
    case (ODict kvs)
    with dc al obtain h1 memo1 where
      l: "deepcopy_dict dc (h @ [ODict []]) ?memo1 ?y kvs = Some (h1, memo1)"
      and r: "h' = h1" "memo' = memo1(a \<mapsto> ?y)" "x' = HRef ?y"
      by (auto simp: Let_def split: option.splits)
    have i1: "copy_inv h0 (h @ [ODict []]) ?memo1"
      using inv by (intro copy_inv_alloc) simp_all
    from deepcopy_dict_inv[OF ok l i1 y0] r show ?thesis
      by (intro that[of "ODict []" h1 memo1]) simp_all
  qed
  from loop have inv1: "copy_inv h0 h1 memo1" and len1: "Suc (length h) \<le> length h1"
    and same1: "\<forall>i<length h. h1 ! i = h ! i" 
    and mono1: "\<forall>b. ?memo1 b \<noteq> None \<longrightarrow> memo1 b \<noteq> None"
    by (auto simp: nth_append)
  have "take (length h) h1 = h"
    using len1 same1 by (intro nth_equalityI) simp_all
  moreover have "copy_inv h0 h1 (memo1(a \<mapsto> ?y))"
    using inv1 len1 y0 by (auto simp: copy_inv_def)
  moreover have "val_in (length h0) (length h1) (HRef ?y)"
    using len1 y0 by (simp add: val_in_def)
  moreover have "\<forall>b. memo b \<noteq> None \<longrightarrow> (memo1(a \<mapsto> ?y)) b \<noteq> None"
    using mono1 by auto
  ultimately show ?thesis using res by simp
qed

lemma deepcopy_ok: "dc_ok h0 (deepcopy n)"
proof (induction n)
  case 0
  show ?case
    unfolding dc_ok_def
    by (auto simp: val_in_def copy_inv_def split: hval.splits option.splits)
next
  case (Suc n)
  show ?case
    unfolding dc_ok_def
  proof (intro allI impI)
    fix h memo x h' memo' x'
    assume inv: "copy_inv h0 h memo" and dc: "deepcopy (Suc n) h memo x = Some (h', memo', x')"
    show "copy_inv h0 h' memo' \<and> take (length h) h' = h
       \<and> val_in (length h0) (length h') x'
       \<and> (\<forall>a. x = HRef a \<longrightarrow> (\<exists>y. x' = HRef y))
       \<and> (\<forall>a. memo a \<noteq> None \<longrightarrow> memo' a \<noteq> None)"
    proof (cases "\<exists>a. x = HRef a \<and> memo a = None")
      case True
      then obtain a where x: "x = HRef a" and m: "memo a = None" by blast
      with dc have "deepcopy_obj (deepcopy n) h memo a = Some (h', memo', x')" by simp
      from deepcopy_obj_inv[OF Suc inv this] show ?thesis by blast
    next
      case False
      with dc inv show ?thesis
        by (auto simp: val_in_def copy_inv_def split: hval.splits option.splits)
    qed
  qed
qed

lemma finite_unmemo: "finite (unmemo h0 memo)"
  by (simp add: unmemo_def)

lemma unmemo_mono:
  "\<forall>a. memo a \<noteq> None \<longrightarrow> memo' a \<noteq> None \<Longrightarrow> card (unmemo h0 memo') \<le> card (unmemo h0 memo)"
  by (intro card_mono finite_unmemo) (auto simp: unmemo_def)

lemma unmemo_upd:
  "a < length h0 \<Longrightarrow> memo a = None \<Longrightarrow> card (unmemo h0 (memo(a \<mapsto> y))) < card (unmemo h0 memo)"
  by (intro psubset_card_mono finite_unmemo) (auto simp: unmemo_def)

lemma deepcopy_list_total:
  assumes ok: "dc_ok h0 dc" and tot: "dc_total h0 k dc"
  shows "copy_inv h0 h memo \<Longrightarrow> length h0 \<le> y \<Longrightarrow> y < length h \<Longrightarrow>
         \<exists>ys. h ! y = OList ys \<Longrightarrow> list_all (val_in 0 (length h0)) xs \<Longrightarrow>
         card (unmemo h0 memo) < k \<Longrightarrow> deepcopy_list dc h memo y xs \<noteq> None"
proof (induction xs arbitrary: h memo)
  case Nil
  then show ?case by simp
next
  case (Cons a as)
  from tot Cons.prems obtain h1 memo1 b where dc: "dc h memo a = Some (h1, memo1, b)"
    unfolding dc_total_def by fastforce
  from ok dc Cons.prems(1) have inv1: "copy_inv h0 h1 memo1" and pre1: "take (length h) h1 = h"
    and b: "val_in (length h0) (length h1) b"
    and mono1: "\<forall>a. memo a \<noteq> None \<longrightarrow> memo1 a \<noteq> None"
    unfolding dc_ok_def by blast+
  have len1: "length h \<le> length h1" using pre1 by (rule take_length_le) simp
  have hy1: "h1 ! y = h ! y" using pre1 Cons.prems(3) by (rule take_nth_eq)
  with Cons.prems(4) obtain ys where ys: "h1 ! y = OList ys" by auto
  then obtain h2 where ap: "list_append h1 y b = Some h2"
    using Cons.prems(3) len1 by (auto simp: list_append_def)
  from list_append_inv[OF ap inv1 Cons.prems(2) b]
  have inv2: "copy_inv h0 h2 memo1" and len2: "length h2 = length h1"
    and ys2: "\<exists>ys. h2 ! y = OList ys" by auto
  have c: "card (unmemo h0 memo1) < k"
    using unmemo_mono[OF mono1, of h0] Cons.prems(6) by simp
  have "deepcopy_list dc h2 memo1 y as \<noteq> None"
    using Cons.prems(2,3,5) len1 len2 by (intro Cons.IH inv2 ys2 c) simp_all
  then show ?case using dc ap by simp
qed

lemma deepcopy_dict_total:
  assumes ok: "dc_ok h0 dc" and tot: "dc_total h0 k dc"
  shows "copy_inv h0 h memo \<Longrightarrow> length h0 \<le> y \<Longrightarrow> y < length h \<Longrightarrow>
         \<exists>ys. h ! y = ODict ys \<Longrightarrow> list_all (val_in 0 (length h0)) (map snd kvs) \<Longrightarrow>
         card (unmemo h0 memo) < k \<Longrightarrow> deepcopy_dict dc h memo y kvs \<noteq> None"
proof (induction kvs arbitrary: h memo)
  case Nil
  then show ?case by simp
next
  case (Cons kv items)
  obtain key v where kv: "kv = (key, v)" by (cases kv)
  from tot Cons.prems kv obtain h1 memo1 b where dc: "dc h memo v = Some (h1, memo1, b)"
    unfolding dc_total_def by fastforce
  from ok dc Cons.prems(1) have inv1: "copy_inv h0 h1 memo1" and pre1: "take (length h) h1 = h"
    and b: "val_in (length h0) (length h1) b"
    and mono1: "\<forall>a. memo a \<noteq> None \<longrightarrow> memo1 a \<noteq> None"
    unfolding dc_ok_def by blast+
  have len1: "length h \<le> length h1" using pre1 by (rule take_length_le) simp
  have hy1: "h1 ! y = h ! y" using pre1 Cons.prems(3) by (rule take_nth_eq)
  with Cons.prems(4) obtain ys where ys: "h1 ! y = ODict ys" by auto
  then obtain h2 where ap: "dict_setitem h1 y key b = Some h2"
    using Cons.prems(3) len1 by (auto simp: dict_setitem_def)
  from dict_setitem_inv[OF ap inv1 Cons.prems(2) b]
  have inv2: "copy_inv h0 h2 memo1" and len2: "length h2 = length h1"
    and ys2: "\<exists>ys. h2 ! y = ODict ys" by auto
  have c: "card (unmemo h0 memo1) < k"
    using unmemo_mono[OF mono1, of h0] Cons.prems(6) by simp
  have "deepcopy_dict dc h2 memo1 y items \<noteq> None"
    using Cons.prems(2,3,5) len1 len2 by (intro Cons.IH inv2 ys2 c) simp_all
  then show ?case using dc ap kv by simp
qed

lemma deepcopy_total:
  assumes wf: "heap_wf h0"
  shows "dc_total h0 n (deepcopy n)"
proof (induction n)
  case 0
  show ?case by (simp add: dc_total_def)
next
  case (Suc n)
  show ?case
    unfolding dc_total_def
  proof (intro allI impI)
    fix h memo x
    assume inv: "copy_inv h0 h memo" and x: "val_in 0 (length h0) x"
      and c: "card (unmemo h0 memo) < Suc n"
    show "deepcopy (Suc n) h memo x \<noteq> None"
    proof (cases "\<exists>a. x = HRef a \<and> memo a = None")
      case True
      then obtain a where xa: "x = HRef a" and m: "memo a = None" by blast
      let ?y = "length h"
      let ?memo1 = "memo(a \<mapsto> ?y)"
      have a0: "a < length h0" using x xa by (simp add: val_in_def)
      have len: "length h0 \<le> length h" and pre: "take (length h0) h = h0"
        using inv by (simp_all add: copy_inv_def)
      have ha: "h ! a = h0 ! a" using pre a0 by (rule take_nth_eq)
      have refs: "list_all (val_in 0 (length h0)) (refs_of (h ! a))"
        using heap_wf_refs[OF wf a0] ha by simp
      have c1: "card (unmemo h0 ?memo1) < n"
        using unmemo_upd[of a h0 memo ?y] a0 m c by simp
      have loop: "(case h ! a of
                    OList xs \<Rightarrow> deepcopy_list (deepcopy n) (h @ [OList []]) ?memo1 ?y xs
                  | ODict kvs \<Rightarrow> deepcopy_dict (deepcopy n) (h @ [ODict []]) ?memo1 ?y kvs)
               \<noteq> None"
      proof (cases "h ! a")
        case (OList xs)
        have "deepcopy_list (deepcopy n) (h @ [OList []]) ?memo1 ?y xs \<noteq> None"
          using refs OList len
          by (intro deepcopy_list_total[OF deepcopy_ok Suc] copy_inv_alloc inv c1) simp_all
        then show ?thesis using OList by simp
      next
        case (ODict kvs)
        have "deepcopy_dict (deepcopy n) (h @ [ODict []]) ?memo1 ?y kvs \<noteq> None"
          using refs ODict len
          by (intro deepcopy_dict_total[OF deepcopy_ok Suc] copy_inv_alloc inv c1) simp_all
        then show ?thesis using ODict by simp
      qed
      have "deepcopy_obj (deepcopy n) h memo a \<noteq> None"
        using loop a0 len by (auto simp: Let_def split: option.splits)
      then show ?thesis using xa m by simp
    next
      case False
      then show ?thesis by (auto split: hval.splits option.splits)
    qed
  qed
qed

lemma extends_refl: "extends m m"
  by (simp add: extends_def)

lemma extends_trans: "extends m m1 \<Longrightarrow> extends m1 m2 \<Longrightarrow> extends m m2"
  by (simp add: extends_def)

lemma ren_extends: "extends m m' \<Longrightarrow> memoized m v \<Longrightarrow> ren m' v = ren m v"
  by (cases v) (auto simp: extends_def memoized_def)

lemma memoized_extends: "extends m m' \<Longrightarrow> memoized m v \<Longrightarrow> memoized m' v"
  by (cases v) (auto simp: extends_def memoized_def)

lemma ren_obj_extends:
  "extends m m' \<Longrightarrow> list_all (memoized m) (refs_of ob) \<Longrightarrow> ren_obj m' ob = ren_obj m ob"
  by (cases ob) (auto simp: list_all_iff ren_extends)

lemma copied_preserved:
  assumes c: "copied h0 h m a" and e: "extends m m'"
    and same: "h' ! the (m a) = h ! the (m a)" and len: "length h \<le> length h'"
  shows "copied h0 h' m' a"
proof -
  from c obtain y where a: "a < length h0" and y: "m a = Some y" "y < length h"
    "h ! y = ren_obj m (h0 ! a)" and r: "list_all (memoized m) (refs_of (h0 ! a))"
    by (auto simp: copied_def)
  have "m' a = Some y" using e y(1) by (simp add: extends_def)
  moreover have "h' ! y = ren_obj m' (h0 ! a)"
    using same y ren_obj_extends[OF e r] by simp
  moreover have "list_all (memoized m') (refs_of (h0 ! a))"
    using r e by (auto simp: list_all_iff intro: memoized_extends)
  ultimately show ?thesis using a y(2) len by (auto simp: copied_def)
qed

lemma deepcopy_list_copy:
  assumes ok: "dc_ok h0 dc" and cp: "dc_copy h0 dc"
  shows "deepcopy_list dc h memo y xs = Some (h', memo') \<Longrightarrow> copy_inv h0 h memo \<Longrightarrow>
         length h0 \<le> y \<Longrightarrow> y < length h \<Longrightarrow> h ! y = OList ys \<Longrightarrow>
         list_all (val_in 0 (length h0)) xs \<Longrightarrow>
         extends memo memo' \<and> h' ! y = OList (ys @ map (ren memo') xs)
         \<and> list_all (memoized memo') xs
         \<and> (\<forall>a z. memo a = None \<longrightarrow> memo' a = Some z \<longrightarrow>
                copied h0 h' memo' a \<and> length h \<le> z)"
proof (induction xs arbitrary: h memo ys)
  case Nil
  then show ?case by (simp add: extends_refl)
next
  case (Cons x xs)
  from Cons.prems(1) obtain h1 memo1 b h2 where
    dc: "dc h memo x = Some (h1, memo1, b)" and ap: "list_append h1 y b = Some h2"
    and rest: "deepcopy_list dc h2 memo1 y xs = Some (h', memo')"
    by (auto split: option.splits)
  from ok dc Cons.prems(2) have inv1: "copy_inv h0 h1 memo1" and pre1: "take (length h) h1 = h"
    and bv: "val_in (length h0) (length h1) b"
    unfolding dc_ok_def by blast+
  have xv: "val_in 0 (length h0) x" using Cons.prems(6) by simp
  from cp Cons.prems(2) xv dc
  have "extends memo memo1 \<and> b = ren memo1 x \<and> memoized memo1 x
      \<and> (\<forall>a z. memo a = None \<longrightarrow> memo1 a = Some z \<longrightarrow>
                 copied h0 h1 memo1 a \<and> length h \<le> z)"
    unfolding dc_copy_def by blast
  then have e1: "extends memo memo1" and b: "b = ren memo1 x"
    and mx: "memoized memo1 x"
    and new1: "\<forall>a z. memo a = None \<longrightarrow> memo1 a = Some z \<longrightarrow>
                 copied h0 h1 memo1 a \<and> length h \<le> z"
    by blast+
  have len1: "length h \<le> length h1" using pre1 by (rule take_length_le) simp
  have hy1: "h1 ! y = OList ys"
    using take_nth_eq[OF pre1 Cons.prems(4)] Cons.prems(5) by simp
  from list_append_inv[OF ap inv1 Cons.prems(3) bv] hy1
  have inv2: "copy_inv h0 h2 memo1" and len2: "length h2 = length h1"
    and same2: "\<forall>i. i \<noteq> y \<longrightarrow> h2 ! i = h1 ! i"
    and hy2: "h2 ! y = OList (ys @ [b])" by auto
  have yl2: "y < length h2" using Cons.prems(4) len1 len2 by simp
  from Cons.IH[OF rest inv2 Cons.prems(3) yl2 hy2] Cons.prems(6)
  have e': "extends memo1 memo'" and hy': "h' ! y = OList ((ys @ [b]) @ map (ren memo') xs)"
    and mxs: "list_all (memoized memo') xs"
    and new': "\<forall>a z. memo1 a = None \<longrightarrow> memo' a = Some z \<longrightarrow>
                 copied h0 h' memo' a \<and> length h2 \<le> z"
    by auto
  from deepcopy_list_inv[OF ok rest inv2 Cons.prems(3) yl2]
  have len': "length h2 \<le> length h'"
    and same': "\<forall>i<length h2. i \<noteq> y \<longrightarrow> h' ! i = h2 ! i" by blast+
  have "ren memo' x = b" using ren_extends[OF e' mx] b by simp
  then have 1: "h' ! y = OList (ys @ map (ren memo') (x # xs))" using hy' by simp
  have 2: "list_all (memoized memo') (x # xs)"
    using mxs memoized_extends[OF e' mx] by simp
  have 3: "copied h0 h' memo' a \<and> length h \<le> w"
    if "memo a = None" "memo' a = Some w" for a w
  proof (cases "memo1 a")
    case None
    with new' that have "copied h0 h' memo' a \<and> length h2 \<le> w" by blast
    then show ?thesis using len1 len2 by simp
  next
    case (Some z)
    with new1 that have c1: "copied h0 h1 memo1 a" and z: "length h \<le> z" by blast+
    from c1 Some have zl: "z < length h1" by (auto simp: copied_def)
    have zy: "z \<noteq> y" using z Cons.prems(4) by simp
    have "h' ! z = h1 ! z" using same' same2 zl zy len2 by simp
    then have "copied h0 h' memo' a"
      using Some len' len2 by (intro copied_preserved[OF c1 e']) simp_all
    moreover have "memo' a = Some z" using e' Some by (simp add: extends_def)
    ultimately show ?thesis using z that by simp
  qed
  show ?case using extends_trans[OF e1 e'] 1 2 3 by blast
qed

lemma update_new_key: "k \<notin> fst ` set ys \<Longrightarrow> AList.update k b ys = ys @ [(k, b)]"
  by (induction ys) auto

lemma deepcopy_dict_copy:
  assumes ok: "dc_ok h0 dc" and cp: "dc_copy h0 dc"
  shows "deepcopy_dict dc h memo y kvs = Some (h', memo') \<Longrightarrow> copy_inv h0 h memo \<Longrightarrow>
         length h0 \<le> y \<Longrightarrow> y < length h \<Longrightarrow> h ! y = ODict ys \<Longrightarrow>
         list_all (val_in 0 (length h0)) (map snd kvs) \<Longrightarrow>
         distinct (map fst (ys @ kvs)) \<Longrightarrow>
         extends memo memo'
         \<and> h' ! y = ODict (ys @ map (\<lambda>kv. (fst kv, ren memo' (snd kv))) kvs)
         \<and> list_all (memoized memo') (map snd kvs)
         \<and> (\<forall>a z. memo a = None \<longrightarrow> memo' a = Some z \<longrightarrow>
                copied h0 h' memo' a \<and> length h \<le> z)"
proof (induction kvs arbitrary: h memo ys)
  case Nil
  then show ?case by (simp add: extends_refl)
next
  case (Cons kv kvs)
  obtain key x where kv: "kv = (key, x)" by (cases kv)
  from Cons.prems(1) kv obtain h1 memo1 b h2 where
    dc: "dc h memo x = Some (h1, memo1, b)" and ap: "dict_setitem h1 y key b = Some h2"
    and rest: "deepcopy_dict dc h2 memo1 y kvs = Some (h', memo')"
    by (auto split: option.splits)
  from ok dc Cons.prems(2) have inv1: "copy_inv h0 h1 memo1" and pre1: "take (length h) h1 = h"
    and bv: "val_in (length h0) (length h1) b"
    unfolding dc_ok_def by blast+
  have xv: "val_in 0 (length h0) x" using Cons.prems(6) kv by simp
  from cp Cons.prems(2) xv dc
  have "extends memo memo1 \<and> b = ren memo1 x \<and> memoized memo1 x
      \<and> (\<forall>a z. memo a = None \<longrightarrow> memo1 a = Some z \<longrightarrow>
                 copied h0 h1 memo1 a \<and> length h \<le> z)"
    unfolding dc_copy_def by blast
  then have e1: "extends memo memo1" and b: "b = ren memo1 x"
    and mx: "memoized memo1 x"
    and new1: "\<forall>a z. memo a = None \<longrightarrow> memo1 a = Some z \<longrightarrow>
                 copied h0 h1 memo1 a \<and> length h \<le> z"
    by blast+
  have len1: "length h \<le> length h1" using pre1 by (rule take_length_le) simp
  have hy1: "h1 ! y = ODict ys"
    using take_nth_eq[OF pre1 Cons.prems(4)] Cons.prems(5) by simp
  have knew: "key \<notin> fst ` set ys" using Cons.prems(7) kv by auto
  from dict_setitem_inv[OF ap inv1 Cons.prems(3) bv] hy1
  have inv2: "copy_inv h0 h2 memo1" and len2: "length h2 = length h1"
    and same2: "\<forall>i. i \<noteq> y \<longrightarrow> h2 ! i = h1 ! i"
    and hy2: "h2 ! y = ODict (ys @ [(key, b)])"
    by (auto simp: update_new_key[OF knew])
  have yl2: "y < length h2" using Cons.prems(4) len1 len2 by simp
  have vs: "list_all (val_in 0 (length h0)) (map snd kvs)" using Cons.prems(6) by simp
  have ds: "distinct (map fst ((ys @ [(key, b)]) @ kvs))" using Cons.prems(7) kv by simp
  from Cons.IH[OF rest inv2 Cons.prems(3) yl2 hy2 vs ds]
  have e': "extends memo1 memo'"
    and hy': "h' ! y = ODict ((ys @ [(key, b)]) @ map (\<lambda>kv. (fst kv, ren memo' (snd kv))) kvs)"
    and mxs: "list_all (memoized memo') (map snd kvs)"
    and new': "\<forall>a z. memo1 a = None \<longrightarrow> memo' a = Some z \<longrightarrow>
                 copied h0 h' memo' a \<and> length h2 \<le> z"
    by blast+
  from deepcopy_dict_inv[OF ok rest inv2 Cons.prems(3) yl2]
  have len': "length h2 \<le> length h'"
    and same': "\<forall>i<length h2. i \<noteq> y \<longrightarrow> h' ! i = h2 ! i" by blast+
  have "ren memo' x = b" using ren_extends[OF e' mx] b by simp
  then have 1: "h' ! y = ODict (ys @ map (\<lambda>kv. (fst kv, ren memo' (snd kv))) (kv # kvs))"
    using hy' kv by simp
  have 2: "list_all (memoized memo') (map snd (kv # kvs))"
    using mxs memoized_extends[OF e' mx] kv by simp
  have 3: "copied h0 h' memo' a \<and> length h \<le> w"
    if "memo a = None" "memo' a = Some w" for a w
  proof (cases "memo1 a")
    case None
    with new' that have "copied h0 h' memo' a \<and> length h2 \<le> w" by blast
    then show ?thesis using len1 len2 by simp
  next
    case (Some z)
    with new1 that have c1: "copied h0 h1 memo1 a" and z: "length h \<le> z" by blast+
    from c1 Some have zl: "z < length h1" by (auto simp: copied_def)
    have zy: "z \<noteq> y" using z Cons.prems(4) by simp
    have "h' ! z = h1 ! z" using same' same2 zl zy len2 by simp
    then have "copied h0 h' memo' a"
      using Some len' len2 by (intro copied_preserved[OF c1 e']) simp_all
    moreover have "memo' a = Some z" using e' Some by (simp add: extends_def)
    ultimately show ?thesis using z that by simp
  qed
  show ?case using extends_trans[OF e1 e'] 1 2 3 by blast
qed

lemma deepcopy_obj_copy:
  assumes wf: "heap_wf h0" and ok: "dc_ok h0 dc" and cp: "dc_copy h0 dc"
    and inv: "copy_inv h0 h memo" and a0: "a < length h0" and m: "memo a = None"
    and dc: "deepcopy_obj dc h memo a = Some (h', memo', x')"
  shows "extends memo memo' \<and> x' = ren memo' (HRef a) \<and> memoized memo' (HRef a)
       \<and> (\<forall>b z. memo b = None \<longrightarrow> memo' b = Some z \<longrightarrow>
              copied h0 h' memo' b \<and> length h \<le> z)"
proof -
  let ?y = "length h"
  let ?memo1 = "memo(a \<mapsto> ?y)"
  have y0: "length h0 \<le> ?y" and pre: "take (length h0) h = h0"
    using inv by (simp_all add: copy_inv_def)
  have ha: "h ! a = h0 ! a" using pre a0 by (rule take_nth_eq)
  have refs: "list_all (val_in 0 (length h0)) (refs_of (h0 ! a))"
    using heap_wf_refs[OF wf a0] .
  have al: "a < length h" using a0 y0 by simp
  have e0: "extends memo ?memo1" using m by (auto simp: extends_def)
  obtain h1 memo1 where res: "h' = h1" "memo' = memo1(a \<mapsto> ?y)" "x' = HRef ?y"
    and len1: "Suc (length h) \<le> length h1"
    and e1: "extends ?memo1 memo1" and hy: "h1 ! ?y = ren_obj memo1 (h0 ! a)"
    and ms: "list_all (memoized memo1) (refs_of (h0 ! a))"
    and new1: "\<forall>b z. ?memo1 b = None \<longrightarrow> memo1 b = Some z \<longrightarrow>
                 copied h0 h1 memo1 b \<and> Suc (length h) \<le> z"
  proof (cases "h0 ! a")
    case (OList xs)
    with dc al ha obtain h1 memo1 where
      l: "deepcopy_list dc (h @ [OList []]) ?memo1 ?y xs = Some (h1, memo1)"
      and r: "h' = h1" "memo' = memo1(a \<mapsto> ?y)" "x' = HRef ?y"
      by (auto simp: Let_def split: option.splits)
    have i1: "copy_inv h0 (h @ [OList []]) ?memo1"
      using inv by (intro copy_inv_alloc) simp_all
    have xs: "list_all (val_in 0 (length h0)) xs" using refs OList by simp
    from deepcopy_list_copy[OF ok cp l i1 y0 _ _ xs, of "[]"]
      deepcopy_list_inv[OF ok l i1 y0] r OList
    show ?thesis by (intro that[of h1 memo1]) simp_all
  next
    case (ODict kvs)
    with dc al ha obtain h1 memo1 where
      l: "deepcopy_dict dc (h @ [ODict []]) ?memo1 ?y kvs = Some (h1, memo1)"
      and r: "h' = h1" "memo' = memo1(a \<mapsto> ?y)" "x' = HRef ?y"
      by (auto simp: Let_def split: option.splits)
    have i1: "copy_inv h0 (h @ [ODict []]) ?memo1"
      using inv by (intro copy_inv_alloc) simp_all
    have xs: "list_all (val_in 0 (length h0)) (map snd kvs)" using refs ODict by simp
    have ds: "distinct (map fst ([] @ kvs))" using heap_wf_distinct[OF wf a0 ODict] by simp
    from deepcopy_dict_copy[OF ok cp l i1 y0 _ _ xs ds]
      deepcopy_dict_inv[OF ok l i1 y0] r ODict
    show ?thesis by (intro that[of h1 memo1]) simp_all
  qed
  have m1a: "memo1 a = Some ?y" using e1 by (simp add: extends_def)
  then have same: "memo1(a \<mapsto> ?y) = memo1" by (simp add: fun_upd_idem)
  have ca: "copied h0 h1 memo1 a"
    using a0 m1a len1 hy ms by (simp add: copied_def)
  have "copied h0 h1 memo1 b \<and> length h \<le> z" if "memo b = None" "memo1 b = Some z" for b z
  proof (cases "b = a")
    case True
    then show ?thesis using ca that m1a by simp
  next
    case False
    then have "(memo(a \<mapsto> length h)) b = None" using that(1) by simp
    with new1 that(2) have "copied h0 h1 memo1 b \<and> Suc (length h) \<le> z" by blast
    then show ?thesis by simp
  qed
  then show ?thesis
    using res same extends_trans[OF e0 e1] m1a by (simp add: memoized_def)
qed

lemma deepcopy_copy:
  assumes wf: "heap_wf h0"
  shows "dc_copy h0 (deepcopy n)"
proof (induction n)
  case 0
  show ?case
    unfolding dc_copy_def
    by (auto simp: extends_refl memoized_def split: hval.splits option.splits)
next
  case (Suc n)
  show ?case
    unfolding dc_copy_def
  proof (intro allI impI)
    fix h memo x h' memo' x'
    assume inv: "copy_inv h0 h memo" and xv: "val_in 0 (length h0) x"
      and dc: "deepcopy (Suc n) h memo x = Some (h', memo', x')"
    show "extends memo memo' \<and> x' = ren memo' x \<and> memoized memo' x
        \<and> (\<forall>a z. memo a = None \<longrightarrow> memo' a = Some z \<longrightarrow>
               copied h0 h' memo' a \<and> length h \<le> z)"
    proof (cases "\<exists>a. x = HRef a \<and> memo a = None")
      case True
      then obtain a where x: "x = HRef a" and m: "memo a = None" by blast
      have a0: "a < length h0" using xv x by (simp add: val_in_def)
      from dc x m have "deepcopy_obj (deepcopy n) h memo a = Some (h', memo', x')" by simp
      from deepcopy_obj_copy[OF wf deepcopy_ok Suc inv a0 m this] x show ?thesis by simp
    next
      case False
      with dc show ?thesis
        by (auto simp: extends_refl memoized_def split: hval.splits option.splits)
    qed
  qed
qed

lemma load_copy:
  assumes all: "\<forall>a. m a \<noteq> None \<longrightarrow> copied h0 h' m a"
  shows "memoized m v \<Longrightarrow> load n h' (ren m v) = load n h0 v"
proof (induction n arbitrary: v)
  case 0
  then show ?case by (cases v) (auto simp: memoized_def)
next
  case (Suc n)
  show ?case
  proof (cases v)
    case (HRef a)
    with Suc.prems obtain y where my: "m a = Some y" by (auto simp: memoized_def)
    with all have c: "copied h0 h' m a" by simp
    with my have a0: "a < length h0" and yl: "y < length h'"
      and hy: "h' ! y = ren_obj m (h0 ! a)"
      and ms: "list_all (memoized m) (refs_of (h0 ! a))"
      by (auto simp: copied_def)
    show ?thesis
    proof (cases "h0 ! a")
      case (OList xs)
      have "map (load n h') (map (ren m) xs) = map (load n h0) xs"
        using ms OList Suc.IH by (simp add: list_all_iff)
      then show ?thesis using HRef my a0 yl hy OList by (simp cong: map_cong)
    next
      case (ODict kvs)
      have "map (\<lambda>kv. map_option (Pair (fst kv)) (load n h' (snd kv)))
              (map (\<lambda>kv. (fst kv, ren m (snd kv))) kvs)
          = map (\<lambda>kv. map_option (Pair (fst kv)) (load n h0 (snd kv))) kvs"
        using ms ODict Suc.IH by (simp add: list_all_iff)
      then show ?thesis using HRef my a0 yl hy ODict by (simp cong: map_cong)
    qed
  qed simp_all
qed

lemma load_frame:
  assumes closed: "\<forall>i. n0 \<le> i \<and> i < length h' \<longrightarrow>
                     list_all (val_in n0 (length h')) (refs_of (h' ! i))"
    and len: "length h' \<le> length h''"
    and same: "\<forall>i. n0 \<le> i \<and> i < length h' \<longrightarrow> h'' ! i = h' ! i"
  shows "val_in n0 (length h') v \<Longrightarrow> load n h'' v = load n h' v"
proof (induction n arbitrary: v)
  case 0
  then show ?case by simp
next
  case (Suc n)
  show ?case
  proof (cases v)
    case (HRef a)
    with Suc.prems have a: "n0 \<le> a" "a < length h'" by (simp_all add: val_in_def)
    with same len have eq: "h'' ! a = h' ! a" and al: "a < length h''" by simp_all
    from closed a have rs: "list_all (val_in n0 (length h')) (refs_of (h' ! a))" by simp
    show ?thesis
    proof (cases "h' ! a")
      case (OList xs)
      have "map (load n h'') xs = map (load n h') xs"
        using rs OList Suc.IH by (simp add: list_all_iff)
      then show ?thesis using HRef a al eq OList by (simp cong: map_cong)
    next
      case (ODict kvs)
      have "map (\<lambda>kv. map_option (Pair (fst kv)) (load n h'' (snd kv))) kvs
          = map (\<lambda>kv. map_option (Pair (fst kv)) (load n h' (snd kv))) kvs"
        using rs ODict Suc.IH by (simp add: list_all_iff)
      then show ?thesis using HRef a al eq ODict by (simp cong: map_cong)
    qed
  qed simp_all
qed

lemma copy_inv_start: "copy_inv h h Map.empty"
  by (auto simp: copy_inv_def)

lemma caller_mutated_nth:
  assumes cm: "caller_mutated h h' h''" and i: "length h \<le> i" "i < length h'"
  shows "i < length h'' \<and> h'' ! i = h' ! i"
proof -
  let ?k = "i - length h"
  have k: "?k < length (drop (length h) h')" using i by simp
  then have k2: "?k < length (drop (length h) (take (length h') h''))"
    using cm by (simp add: caller_mutated_def)
  then have il: "i < length h''" using i by simp
  have "drop (length h) (take (length h') h'') ! ?k = drop (length h) h' ! ?k"
    using cm by (simp add: caller_mutated_def)
  then have "h'' ! i = h' ! i" using i il by simp
  then show ?thesis using il by simp
qed

text \<open>
  C5. In a well-formed store, the constructor given an options object returns (the
  depth bound being above the number of objects), and what it stores in \<open>options\<close> is a
  new object, not one of the caller's; the caller's objects are untouched; the stored
  options read as the caller's options read at that time (a deep copy); and whatever
  the caller then does to the objects it had, the stored options read the same at every
  depth, and so does the requirement built on them, hence its \<open>encrypted\<close> flag.
\<close>

theorem Requirement_init_deep_copy:
  assumes wf: "heap_wf h" and a: "a < length h" and fuel: "length h < fuel"
  shows "\<exists>h' y. Requirement_init fuel h (HRef a) = Some (h', HRef y)
       \<and> length h \<le> y \<and> y < length h' \<and> take (length h) h' = h
       \<and> (\<forall>n. load n h' (HRef y) = load n h (HRef a))
       \<and> (\<forall>h'' n. caller_mutated h h' h'' \<longrightarrow>
             load n h'' (HRef y) = load n h' (HRef y)
             \<and> (\<forall>reg var. requirement_at n h'' reg var (HRef y)
                   = (requirement_at n h' reg var (HRef y) :: 'p EnvVarRequirement option)))"
proof -
  have inv0: "copy_inv h h Map.empty" by (rule copy_inv_start)
  have xv: "val_in 0 (length h) (HRef a)" using a by (simp add: val_in_def)
  have "card (unmemo h Map.empty) < fuel"
    using fuel by (simp add: unmemo_def)
  with deepcopy_total[OF wf, of fuel] inv0 xv
  obtain h' memo' x' where dc: "deepcopy fuel h Map.empty (HRef a) = Some (h', memo', x')"
    unfolding dc_total_def by fastforce
  from deepcopy_ok[of h fuel] inv0 dc
  have inv': "copy_inv h h' memo'" and pre: "take (length h) h' = h"
    and xv': "val_in (length h) (length h') x'" and "\<exists>y. x' = HRef y"
    unfolding dc_ok_def by blast+
  then obtain y where y: "x' = HRef y" by blast
  from deepcopy_copy[OF wf, of fuel] inv0 xv dc
  have xr: "x' = ren memo' (HRef a)" and ma: "memoized memo' (HRef a)"
    and cp: "\<forall>b z. Map.empty b = None \<longrightarrow> memo' b = Some z \<longrightarrow>
               copied h h' memo' b \<and> length h \<le> z"
    unfolding dc_copy_def by blast+
  have all: "\<forall>b. memo' b \<noteq> None \<longrightarrow> copied h h' memo' b" using cp by auto
  have content: "load n h' (HRef y) = load n h (HRef a)" for n
    using load_copy[OF all ma, of n] xr y by simp
  have yb: "length h \<le> y" "y < length h'" using xv' y by (simp_all add: val_in_def)
  have closed: "\<forall>i. length h \<le> i \<and> i < length h' \<longrightarrow>
                  list_all (val_in (length h) (length h')) (refs_of (h' ! i))"
    using inv' by (simp add: copy_inv_def)
  have frame: "load n h'' (HRef y) = load n h' (HRef y)" if cm: "caller_mutated h h' h''" for h'' n
  proof -
    have "length h \<le> length h' - 1" "length h' - 1 < length h'" using yb by simp_all
    from caller_mutated_nth[OF cm this] have "length h' \<le> length h''" by linarith
    moreover have "\<forall>i. length h \<le> i \<and> i < length h' \<longrightarrow> h'' ! i = h' ! i"
      using caller_mutated_nth[OF cm] by blast
    ultimately show ?thesis
      using xv' y by (intro load_frame[OF closed]) simp_all
  qed
  have "Requirement_init fuel h (HRef a) = Some (h', HRef y)"
    using dc y by (simp add: Requirement_init_def)
  then show ?thesis
    using yb pre content frame by (simp add: requirement_at_def)
qed

theorem Requirement_init_deep_copy_witness:
  "heap_wf caller_heap
   \<and> Requirement_init 3 caller_heap (HRef 0) = Some (copied_heap, HRef 2)
   \<and> caller_mutated caller_heap copied_heap mutated_heap
   \<and> load 2 mutated_heap (HRef 2) =
       Some (PDict [(''encrypted'', PBool True), (''tags'', PList [PStr ''a'', PStr ''b''])])
   \<and> map_option encrypted
        (requirement_at 2 mutated_heap (no_providers :: nat PluginRegistry) ''DB'' (HRef 2)) =
       Some (PBool True)"
proof -
  have wf: "heap_wf caller_heap" by code_simp
  have init: "Requirement_init 3 caller_heap (HRef 0) = Some (copied_heap, HRef 2)"
    by code_simp
  have cm: "caller_mutated caller_heap copied_heap mutated_heap" by code_simp
  have ld: "load 2 copied_heap (HRef 2) =
       Some (PDict [(''encrypted'', PBool True), (''tags'', PList [PStr ''a'', PStr ''b''])])"
    by code_simp
  from Requirement_init_deep_copy[OF wf, of 0 3, where ?'p = nat] init cm
  have fr: "load 2 mutated_heap (HRef 2) = load 2 copied_heap (HRef 2)"
    by (auto simp: caller_heap_def)
  then have "map_option encrypted
        (requirement_at 2 mutated_heap (no_providers :: nat PluginRegistry) ''DB'' (HRef 2)) =
       Some (PBool True)"
    using ld by (simp add: requirement_at_def encrypted_def)
  then show ?thesis using wf init cm fr ld by simp
qed

section \<open>Properties of the interactive configuration server\<close>




lemma post_field_frame:
  "ui_events (post_field s nv) = ui_events s
   \<and> ui_requirements_by_id (post_field s nv) = ui_requirements_by_id s
   \<and> ui_prepare_stage (post_field s nv) = ui_prepare_stage s
   \<and> (ui_requirements_by_id s = [] \<longrightarrow> ui_context (post_field s nv) = ui_context s)"
  by (simp add: post_field_def Let_def split: option.splits)

lemma foldl_post_field_events: "ui_events (foldl post_field s body) = ui_events s"
  by (induction body arbitrary: s) (simp_all add: post_field_frame)

lemma foldl_post_field_no_ids:
  "ui_requirements_by_id s = [] \<Longrightarrow>
   ui_context (foldl post_field s body) = ui_context s
   \<and> ui_prepare_stage (foldl post_field s body) = ui_prepare_stage s"
  by (induction body arbitrary: s) (simp_all add: post_field_frame)

lemma foo_session_eq:
  "foo_session =
     \<lparr> ui_prepare_stage = prepare_stage,
       ui_context = \<lparr> ctx_environ = Map.empty, ctx_local_state = Map.empty,
          ctx_statuses = [foo_status] \<rparr>,
       ui_requirements_by_id = [(''req'', foo_status)],
       ui_events = [], ui_stderr = [], ui_result = None, ui_listening = True \<rparr>"
  by (simp add: foo_session_def ui_get_def UIServer_init_def tally_id_def Let_def)

lemma foo_status_eq:
  "foo_status =
     \<lparr> requirement = \<lparr> registry = PluginRegistry, options = Map.empty, env_var = ''FOO'' \<rparr>,
       has_been_provided = False,
       status_description = ''Environment variable FOO is not set.'',
       possible_providers = [EnvVarProvider] \<rparr>"
  by (simp add: foo_status_def check_status_unset unset_message_def PluginRegistry_def)




text \<open>
  C4. Whatever the posted fields are, the response is 200 and the completion event is
  emitted. A posted name with fewer than three dot-separated pieces is ignored and
  logged as \<open>not enough pieces in\<close> and the list of pieces; a name whose first piece is
  not a requirement id of the session is ignored and logged as
  \<open>{id} not a known requirement id\<close>; a name whose second piece is not the name of a
  provider of that requirement is ignored and logged as \<open>did not find provider {name}\<close>.
\<close>

theorem ui_post_malformed_name:
  "resp_code (fst (ui_post s body)) = 200
   \<and> ui_events (snd (ui_post s body)) = ui_events s @ [UIServerDoneEvent]
   \<and> (length (split_on CHR ''.'' name) < 3 \<longrightarrow>
        ui_stderr (snd (ui_post s [(name, val)])) =
          ui_stderr s @ [''not enough pieces in '' @ repr_pieces (split_on CHR ''.'' name)]
        \<and> ui_context (snd (ui_post s [(name, val)])) = ui_context s)
   \<and> (3 \<le> length (split_on CHR ''.'' name)
        \<and> map_of (ui_requirements_by_id s) (split_on CHR ''.'' name ! 0) = None \<longrightarrow>
        ui_stderr (snd (ui_post s [(name, val)])) =
          ui_stderr s @ [split_on CHR ''.'' name ! 0 @ '' not a known requirement id'']
        \<and> ui_context (snd (ui_post s [(name, val)])) = ui_context s)
   \<and> (3 \<le> length (split_on CHR ''.'' name)
        \<and> map_of (ui_requirements_by_id s) (split_on CHR ''.'' name ! 0) = Some st
        \<and> find (\<lambda>p. provider_name p = split_on CHR ''.'' name ! 1) (possible_providers st)
            = None
        \<longrightarrow>
        ui_stderr (snd (ui_post s [(name, val)])) =
          ui_stderr s @ [''did not find provider '' @ split_on CHR ''.'' name ! 1]
        \<and> ui_context (snd (ui_post s [(name, val)])) = ui_context s)"
  by (simp add: ui_post_def Let_def foldl_post_field_events post_field_def)

theorem ui_post_malformed_name_witness:
  "ui_stderr (snd (ui_post foo_session [(''nopieces'', ''bloop'')]))
     = [''not enough pieces in ['' @ [CHR 0x27] @ ''nopieces'' @ [CHR 0x27] @ '']'']
   \<and> ui_stderr (snd (ui_post foo_session [(''badid.EnvVarProvider.value'', ''bloop'')]))
     = [''badid not a known requirement id'']
   \<and> ui_stderr (snd (ui_post foo_session [(''req.BadProvider.value'', ''bloop'')]))
     = [''did not find provider BadProvider'']
   \<and> resp_code (fst (ui_post foo_session [(''req.BadProvider.value'', ''bloop'')])) = 200
   \<and> ui_events (snd (ui_post foo_session [(''req.BadProvider.value'', ''bloop'')]))
     = [UIServerDoneEvent]"
proof -
  have pp: "possible_providers foo_status = [EnvVarProvider]"
    by (simp add: foo_status_eq)
  have 1: "ui_stderr (snd (ui_post foo_session [(''nopieces'', ''bloop'')]))
     = [''not enough pieces in ['' @ [CHR 0x27] @ ''nopieces'' @ [CHR 0x27] @ '']'']"
    using ui_post_malformed_name [of foo_session "[]" "''nopieces''" "''bloop''" foo_status]
    by (simp add: foo_session_eq repr_pieces_def)
  have 2: "ui_stderr (snd (ui_post foo_session [(''badid.EnvVarProvider.value'', ''bloop'')]))
     = [''badid not a known requirement id'']"
    using ui_post_malformed_name
      [of foo_session "[]" "''badid.EnvVarProvider.value''" "''bloop''" foo_status]
    by (simp add: foo_session_eq)
  have 3: "ui_stderr (snd (ui_post foo_session [(''req.BadProvider.value'', ''bloop'')]))
     = [''did not find provider BadProvider'']
   \<and> resp_code (fst (ui_post foo_session [(''req.BadProvider.value'', ''bloop'')])) = 200
   \<and> ui_events (snd (ui_post foo_session [(''req.BadProvider.value'', ''bloop'')]))
     = [UIServerDoneEvent]"
    using ui_post_malformed_name
      [of foo_session "[(''req.BadProvider.value'', ''bloop'')]"
          "''req.BadProvider.value''" "''bloop''" foo_status] pp
    by (simp add: foo_session_eq EnvVarProvider_def)
  show ?thesis using 1 2 3 by simp
qed

text \<open>
  C7. Every POST adds exactly one completion event to those the event handler has
  received, whatever the session and the body, and a listening server answers every
  POST. In the session with no requirement, after a GET and a POST of any body, the
  event handler has received that one event and nothing else, and the resumed pipeline
  has ended in success with empty logs and the environ it was given (every requirement
  is provided, there being none). After \<open>unlisten\<close> the socket is released: every GET and
  every POST is refused, so no handler runs and no further event is emitted; the events
  received are as they were.
\<close>

theorem ui_post_one_completion_event:
  "ui_events (snd (ui_post s body)) = ui_events s @ [UIServerDoneEvent]
   \<and> (ui_listening s \<longrightarrow> http_post s body = Inr (ui_post s body))
   \<and> ui_events (snd (ui_post (snd (ui_get mk_id (UIServer_init prepare_stage
         \<lparr> ctx_environ = environ, ctx_local_state = ls, ctx_statuses = [] \<rparr>))) body))
       = [UIServerDoneEvent]
   \<and> ui_result (snd (ui_post (snd (ui_get mk_id (UIServer_init prepare_stage
         \<lparr> ctx_environ = environ, ctx_local_state = ls, ctx_statuses = [] \<rparr>))) body))
       = Some (Finished (PrepareSuccess [] environ))
   \<and> http_get mk_id (unlisten s) = Inl ConnectionRefused
   \<and> http_post (unlisten s) body = Inl ConnectionRefused
   \<and> ui_events (unlisten s) = ui_events s"
proof -
  let ?ctx = "\<lparr> ctx_environ = environ, ctx_local_state = ls, ctx_statuses = [] \<rparr>"
  let ?s1 = "snd (ui_get mk_id (UIServer_init prepare_stage ?ctx))"
  have s1: "ui_requirements_by_id ?s1 = []" "ui_context ?s1 = ?ctx"
    "ui_prepare_stage ?s1 = prepare_stage" "ui_events ?s1 = []"
    by (simp_all add: ui_get_def UIServer_init_def Let_def)
  have stage: "prepare_stage ?ctx = Finished (PrepareSuccess [] environ)"
    by (simp add: prepare_stage_def computing_status_def recompute_statuses_def Let_def)
  have "ui_result (snd (ui_post ?s1 body)) = Some (Finished (PrepareSuccess [] environ))"
    using foldl_post_field_no_ids[OF s1(1), of body] s1 stage
    by (simp add: ui_post_def Let_def)
  moreover have "ui_events (snd (ui_post ?s1 body)) = [UIServerDoneEvent]"
    using s1 by (simp add: ui_post_def Let_def foldl_post_field_events)
  moreover have "ui_events (snd (ui_post s body)) = ui_events s @ [UIServerDoneEvent]"
    by (simp add: ui_post_def Let_def foldl_post_field_events)
  ultimately show ?thesis
    by (simp add: http_get_def http_post_def unlisten_def)
qed

theorem ui_post_one_completion_event_witness:
  "http_get tally_id empty_session = Inr (\<lparr> resp_code = 200, resp_inputs = [] \<rparr>, empty_session)
   \<and> http_post empty_session [] = Inr (ui_post empty_session [])
   \<and> resp_code (fst (ui_post empty_session [])) = 200
   \<and> ui_events (unlisten (snd (ui_post empty_session []))) = [UIServerDoneEvent]
   \<and> ui_result (unlisten (snd (ui_post empty_session [])))
       = Some (Finished (PrepareSuccess [] Map.empty))
   \<and> http_post (unlisten (snd (ui_post empty_session []))) [] = Inl ConnectionRefused"
proof -
  have g: "ui_get tally_id empty_session
      = (\<lparr> resp_code = 200, resp_inputs = [] \<rparr>, empty_session)"
    by (simp add: ui_get_def empty_session_def UIServer_init_def form_inputs_def Let_def)
  have l: "ui_listening empty_session"
    by (simp add: empty_session_def UIServer_init_def)
  show ?thesis
    using ui_post_one_completion_event
      [of empty_session "[]" tally_id Map.empty Map.empty]
      ui_post_one_completion_event
      [of "snd (ui_post empty_session [])" "[]" tally_id Map.empty Map.empty]
      g l
    by (simp add: http_get_def unlisten_def ui_post_def Let_def empty_session_def [symmetric])
qed

section \<open>Properties of the loading of services and of the command line\<close>

lemma load_service_other:
  assumes "\<forall>t. item \<noteq> PStr t" and "\<forall>opts. item \<noteq> PDict opts"
  shows "load_service known varname item =
     ([''Service '' @ varname
         @ '' should have a service type string or a dictionary as its value.''], None)"
  using assms by (cases item) (simp_all add: load_service_def)

lemma load_service_string:
  assumes "t \<notin> set known"
  shows "load_service known varname (PStr t) =
     ([''Service '' @ varname @ '' has an unknown type '' @ [CHR 0x27] @ t @ [CHR 0x27]
         @ ''.''], None)"
  using assms by (simp add: load_service_def find_service_type_def)

lemma load_service_no_type:
  assumes "map_of opts ''type'' = None"
  shows "load_service known varname (PDict opts) =
     ([''Service '' @ varname @ '' doesn'' @ [CHR 0x27] @ ''t contain a '' @ [CHR 0x27]
         @ ''type'' @ [CHR 0x27] @ '' field.''], None)"
  using assms by (simp add: load_service_def)

lemma load_service_bad_default:
  assumes "map_of opts ''type'' = Some ty" and "map_of opts ''default'' = Some v"
    and "\<not> is_scalar v"
  shows "load_service known varname (PDict opts) =
     ([''default value for variable '' @ varname
         @ '' must be null, a string, or a number, not '' @ py_repr v @ ''.''], None)"
  using assms by (simp add: load_service_def parse_default_def)

lemma load_service_unknown_type:
  assumes "map_of opts ''type'' = Some ty"
    and "\<forall>v. map_of opts ''default'' = Some v \<longrightarrow> is_scalar v"
    and "\<not> known_service_type known ty"
  shows "load_service known varname (PDict opts) =
     ([''Service '' @ varname @ '' has an unknown type '' @ [CHR 0x27] @ py_str ty
         @ [CHR 0x27] @ ''.''], None)"
proof -
  have "parse_default opts varname = None"
    using assms(2) by (auto simp: parse_default_def split: option.splits)
  then show ?thesis
    using assms(1,3) by (simp add: load_service_def find_service_type_def)
qed

lemma load_service_known:
  assumes "\<not> malformed_service known item"
  shows "\<exists>r. load_service known varname item = ([], Some r)"
proof (cases item)
  case (PStr t)
  then show ?thesis
    using assms by (simp add: malformed_service_def load_service_def find_service_type_def)
next
  case (PDict opts)
  from assms PDict obtain ty where ty: "map_of opts ''type'' = Some ty"
    by (cases "map_of opts ''type''") (simp_all add: malformed_service_def)
  have d: "parse_default opts varname = None"
    using assms PDict ty
    by (cases "map_of opts ''default''")
       (auto simp: malformed_service_def parse_default_def split: pyval.splits)
  have "known_service_type known ty"
    using assms PDict ty
    by (cases "map_of opts ''default''")
       (auto simp: malformed_service_def split: pyval.splits)
  then show ?thesis
    using PDict ty d by (simp add: load_service_def find_service_type_def)
qed (use assms in \<open>simp_all add: malformed_service_def\<close>)

lemma load_service_malformed:
  assumes "malformed_service known item"
  shows "\<exists>p. load_service known varname item = ([p], None) \<and> sublist varname p"
proof -
  consider (other) "\<forall>t. item \<noteq> PStr t" "\<forall>opts. item \<noteq> PDict opts"
    | (string) t where "item = PStr t"
    | (dict) opts where "item = PDict opts"
    by blast
  then show ?thesis
  proof cases
    case other
    have "sublist varname (''Service '' @ varname
         @ '' should have a service type string or a dictionary as its value.'')"
      by (rule sublist_appendI)
    with load_service_other[OF other, of known varname] show ?thesis by blast
  next
    case string
    with assms have "t \<notin> set known" by (simp add: malformed_service_def)
    from load_service_string[OF this, of varname]
    have "load_service known varname item =
       ([''Service '' @ varname @ '' has an unknown type '' @ [CHR 0x27] @ t @ [CHR 0x27]
           @ ''.''], None)"
      using string by simp
    moreover have "sublist varname (''Service '' @ varname @ '' has an unknown type ''
        @ [CHR 0x27] @ t @ [CHR 0x27] @ ''.'')"
      by (rule sublist_appendI)
    ultimately show ?thesis by blast
  next
    case dict
    show ?thesis
    proof (cases "map_of opts ''type''")
      case None
      from load_service_no_type[OF None, of known varname]
      have "load_service known varname item =
         ([''Service '' @ varname @ '' doesn'' @ [CHR 0x27] @ ''t contain a '' @ [CHR 0x27]
             @ ''type'' @ [CHR 0x27] @ '' field.''], None)"
        using dict by simp
      moreover have "sublist varname (''Service '' @ varname @ '' doesn'' @ [CHR 0x27]
          @ ''t contain a '' @ [CHR 0x27] @ ''type'' @ [CHR 0x27] @ '' field.'')"
        by (rule sublist_appendI)
      ultimately show ?thesis by blast
    next
      case (Some ty)
      show ?thesis
      proof (cases "\<exists>v. map_of opts ''default'' = Some v \<and> \<not> is_scalar v")
        case True
        then obtain v where v: "map_of opts ''default'' = Some v" "\<not> is_scalar v" by blast
        from load_service_bad_default[OF Some v, of known varname]
        have "load_service known varname item =
           ([''default value for variable '' @ varname
               @ '' must be null, a string, or a number, not '' @ py_repr v @ ''.''], None)"
          using dict by simp
        moreover have "sublist varname (''default value for variable '' @ varname
               @ '' must be null, a string, or a number, not '' @ py_repr v @ ''.'')"
          by (rule sublist_appendI)
        ultimately show ?thesis by blast
      next
        case False
        then have sc: "\<forall>v. map_of opts ''default'' = Some v \<longrightarrow> is_scalar v" by blast
        have "\<not> known_service_type known ty"
          using assms dict Some sc
          by (cases "map_of opts ''default''")
             (auto simp: malformed_service_def split: pyval.splits)
        from load_service_unknown_type[OF Some sc this, of varname]
        have "load_service known varname item =
           ([''Service '' @ varname @ '' has an unknown type '' @ [CHR 0x27] @ py_str ty
               @ [CHR 0x27] @ ''.''], None)"
          using dict by simp
        moreover have "sublist varname (''Service '' @ varname @ '' has an unknown type ''
            @ [CHR 0x27] @ py_str ty @ [CHR 0x27] @ ''.'')"
          by (rule sublist_appendI)
        ultimately show ?thesis by blast
      qed
    qed
  qed
qed

lemma load_services_count:
  "length (load_services known services) =
     length (filter (\<lambda>entry. malformed_service known (snd entry)) services)"
  unfolding load_services_def
proof (induction services)
  case Nil
  show ?case by simp
next
  case (Cons entry services)
  have "length (fst (load_service known (fst entry) (snd entry))) =
          (if malformed_service known (snd entry) then 1 else 0)"
    using load_service_malformed[of known "snd entry" "fst entry"]
      load_service_known[of known "snd entry" "fst entry"]
    by (cases "malformed_service known (snd entry)") auto
  then show ?case using Cons.IH by simp
qed

text \<open>
  C8. A malformed service declaration gives exactly one problem string, which holds
  the name of the service, and no requirement. The problem is, for each kind of
  malformed declaration: for a value that is neither a string nor a dictionary,
  \<open>Service {name} should have a service type string or a dictionary as its value.\<close>; for
  a string that is no known type, \<open>Service {name} has an unknown type '{type}'.\<close>; for a
  dictionary without \<open>type\<close>, \<open>Service {name} doesn't contain a 'type' field.\<close>; for a
  dictionary with a default that is a list or a dictionary,
  \<open>default value for variable {name} must be null, a string, or a number, not {default}.\<close>;
  for a dictionary with a type that is not known, the message of the unknown type. A
  declaration that is not malformed gives no problem and a requirement; so a
  \<open>services:\<close> section gives as many problems as it has malformed declarations. Loading
  returns in every case (it is a total function: nothing is raised).
\<close>

theorem load_service_one_problem:
  "(malformed_service known item \<longrightarrow>
      (\<exists>p. load_service known varname item = ([p], None) \<and> sublist varname p))
   \<and> (\<not> malformed_service known item \<longrightarrow>
      (\<exists>r. load_service known varname item = ([], Some r)))
   \<and> ((\<forall>t. item \<noteq> PStr t) \<and> (\<forall>opts. item \<noteq> PDict opts) \<longrightarrow>
      load_service known varname item =
        ([''Service '' @ varname
            @ '' should have a service type string or a dictionary as its value.''], None))
   \<and> (t \<notin> set known \<longrightarrow>
      load_service known varname (PStr t) =
        ([''Service '' @ varname @ '' has an unknown type '' @ [CHR 0x27] @ t @ [CHR 0x27]
            @ ''.''], None))
   \<and> (map_of opts ''type'' = None \<longrightarrow>
      load_service known varname (PDict opts) =
        ([''Service '' @ varname @ '' doesn'' @ [CHR 0x27] @ ''t contain a '' @ [CHR 0x27]
            @ ''type'' @ [CHR 0x27] @ '' field.''], None))
   \<and> (map_of opts ''type'' = Some ty \<and> map_of opts ''default'' = Some v \<and> \<not> is_scalar v
        \<longrightarrow>
      load_service known varname (PDict opts) =
        ([''default value for variable '' @ varname
            @ '' must be null, a string, or a number, not '' @ py_repr v @ ''.''], None))
   \<and> (map_of opts ''type'' = Some ty
        \<and> (\<forall>d. map_of opts ''default'' = Some d \<longrightarrow> is_scalar d)
        \<and> \<not> known_service_type known ty \<longrightarrow>
      load_service known varname (PDict opts) =
        ([''Service '' @ varname @ '' has an unknown type '' @ [CHR 0x27] @ py_str ty
            @ [CHR 0x27] @ ''.''], None))
   \<and> length (load_services known services) =
       length (filter (\<lambda>entry. malformed_service known (snd entry)) services)"
  using load_service_malformed[of known item varname]
    load_service_known[of known item varname]
    load_service_other[of item known varname]
    load_service_string[of t known varname]
    load_service_no_type[of opts known varname]
    load_service_bad_default[of opts ty v known varname]
    load_service_unknown_type[of opts ty known varname]
    load_services_count[of known services]
  by blast

theorem load_service_one_problem_witness:
  "load_service [''redis''] ''FOOBAR'' (PList [PInt 42]) =
     ([''Service FOOBAR should have a service type string or a dictionary as its value.''],
      None)
   \<and> load_service [''redis''] ''FOOBAR'' (PStr ''not_a_service'') =
     ([''Service FOOBAR has an unknown type '' @ [CHR 0x27] @ ''not_a_service''
         @ [CHR 0x27] @ ''.''], None)
   \<and> load_service [''redis''] ''FOOBAR'' (PDict []) =
     ([''Service FOOBAR doesn'' @ [CHR 0x27] @ ''t contain a '' @ [CHR 0x27] @ ''type''
         @ [CHR 0x27] @ '' field.''], None)
   \<and> load_service [''redis''] ''FOOBAR''
       (PDict [(''type'', PStr ''redis''), (''default'', PList [])]) =
     ([''default value for variable FOOBAR must be null, a string, or a number, not [].''],
      None)
   \<and> load_service [''redis''] ''FOOBAR''
       (PDict [(''type'', PStr ''redis''), (''foo'', PStr ''bar''), (''default'', PStr ''hello'')])
     = ([], Some \<lparr> service_env_var = ''FOOBAR'',
          service_options =
            [(''type'', PStr ''redis''), (''foo'', PStr ''bar''), (''default'', PStr ''hello'')] \<rparr>)
   \<and> load_service [''redis''] ''DB'' (PDict [(''type'', PStr ''nope''), (''default'', PInt 1)]) =
     ([''Service DB has an unknown type '' @ [CHR 0x27] @ ''nope'' @ [CHR 0x27] @ ''.''], None)"
  using load_service_one_problem [of "[''redis'']" "PList [PInt 42]" "''FOOBAR''"]
    load_service_one_problem [of "[''redis'']"
      "PDict [(''type'', PStr ''nope''), (''default'', PInt 1)]" "''DB''" _
      "[(''type'', PStr ''nope''), (''default'', PInt 1)]" "PStr ''nope''"]
    load_service_one_problem [of "[''redis'']" "PStr ''not_a_service''" "''FOOBAR''"]
    load_service_one_problem [of "[''redis'']" "PDict []" "''FOOBAR''"]
    load_service_one_problem [of "[''redis'']"
      "PDict [(''type'', PStr ''redis''), (''default'', PList [])]" "''FOOBAR''"]
    load_service_one_problem [of "[''redis'']"
      "PDict [(''type'', PStr ''redis''), (''foo'', PStr ''bar''), (''default'', PStr ''hello'')]"
      "''FOOBAR''"]
  by (simp add: load_service_def find_service_type_def parse_default_def)

lemma foldl_frontend_report:
  "console_out (foldl frontend_report c calls) = console_out c @ collected_logs calls
   \<and> console_err (foldl frontend_report c calls) = console_err c @ collected_errors calls"
proof (induction calls arbitrary: c)
  case Nil
  show ?case by simp
next
  case (Cons call calls)
  show ?case by (cases call) (simp_all add: Cons.IH)
qed

text \<open>
  C9. A command prints the logs of the operation on standard output, in order, and its
  errors on standard error, in order; the description of the result follows the errors
  on standard error when the result is a failure (it follows the logs on standard
  output when the result is a success); and the exit code is 0 on success and not 0 on
  failure.
\<close>

theorem unarchive_command_output:
  "console_out (snd (unarchive_command (calls, status) c)) =
     console_out c @ collected_logs calls @ (if success status then [description status] else [])
   \<and> console_err (snd (unarchive_command (calls, status) c)) =
     console_err c @ collected_errors calls
       @ (if success status then [] else [description status])
   \<and> (fst (unarchive_command (calls, status) c) \<noteq> 0 \<longleftrightarrow> \<not> success status)
   \<and> (fst (unarchive_command (calls, status) c) = 0 \<longleftrightarrow> success status)"
  by (simp add: unarchive_command_def Let_def foldl_frontend_report)

theorem unarchive_command_output_witness:
  "unarchive_command
     ([Info ''a'', Info ''b''], \<lparr> success = True, description = ''DESC'', errors = [] \<rparr>)
     \<lparr> console_out = [], console_err = [] \<rparr>
     = (0, \<lparr> console_out = [''a'', ''b'', ''DESC''], console_err = [] \<rparr>)
   \<and> unarchive_command
     ([Info ''a'', Info ''b'', Error ''c'', Error ''d''],
      \<lparr> success = False, description = ''DESC'', errors = [''c'', ''d''] \<rparr>)
     \<lparr> console_out = [], console_err = [] \<rparr>
     = (1, \<lparr> console_out = [''a'', ''b''], console_err = [''c'', ''d'', ''DESC''] \<rparr>)"
  using unarchive_command_output
    [of "[Info ''a'', Info ''b'']" "\<lparr> success = True, description = ''DESC'', errors = [] \<rparr>"
        "\<lparr> console_out = [], console_err = [] \<rparr>"]
    unarchive_command_output
    [of "[Info ''a'', Info ''b'', Error ''c'', Error ''d'']"
        "\<lparr> success = False, description = ''DESC'', errors = [''c'', ''d''] \<rparr>"
        "\<lparr> console_out = [], console_err = [] \<rparr>"]
  by (simp add: unarchive_command_def)

end
